theory Spec2Isabelle
  imports Complex_Main "HOL-Library.Word"
begin

section \<open>MBP-10 reconstruction from MBO events: the order book engine\<close>

text \<open>
  A shallow embedding of \<^verbatim>\<open>include/Order.hpp\<close>, \<^verbatim>\<open>include/Utils.hpp\<close>,
  \<^verbatim>\<open>include/Orderbook.hpp\<close>, \<^verbatim>\<open>src/Orderbook.cpp\<close>, the row validation of
  \<^verbatim>\<open>src/CsvWriter.cpp\<close> and the order loop of \<^verbatim>\<open>src/main.cpp\<close>.

  Conventions of the embedding:
  \<^item> \<^verbatim>\<open>uint64_t\<close> is \<open>64 word\<close>, \<^verbatim>\<open>uint32_t\<close> is \<open>32 word\<close>; arithmetic wraps as in C++.
  \<^item> \<^verbatim>\<open>char\<close> fields (side, action) are \<open>char\<close>; any character may occur.
  \<^item> \<^verbatim>\<open>std::map<uint64_t, PriceLevel, Compare>\<close> is an association list in the map's
    iteration order; the comparator is a parameter of the inserting operation.
  \<^item> \<^verbatim>\<open>std::unordered_map<uint64_t, OrderInfo>\<close> is a partial function; the code never
    iterates over it.
  \<^item> \<^verbatim>\<open>double\<close> prices are idealised as \<open>real\<close>: \<^verbatim>\<open>get_price\<close> is the exact quotient of
    the scaled price by \<open>10\<^sup>9\<close>. No statement below depends on rounding.
  \<^item> The performance statistics, timers and console output are left out; the
    pre-allocated \<^verbatim>\<open>current_mbp_row\<close> is returned as a value.
\<close>

type_synonym u64 = "64 word"
type_synonym u32 = "32 word"

subsection \<open>Utils.hpp: constants\<close>

definition MAX_DEPTH :: int where "MAX_DEPTH = 10"

definition ACTION_ADD :: char where "ACTION_ADD = CHR ''A''"
definition ACTION_CANCEL :: char where "ACTION_CANCEL = CHR ''C''"
definition ACTION_TRADE :: char where "ACTION_TRADE = CHR ''T''"
definition ACTION_FILL :: char where "ACTION_FILL = CHR ''F''"
definition ACTION_CLEAR :: char where "ACTION_CLEAR = CHR ''R''"

definition SIDE_BID :: char where "SIDE_BID = CHR ''B''"
definition SIDE_ASK :: char where "SIDE_ASK = CHR ''A''"
definition SIDE_NEUTRAL :: char where "SIDE_NEUTRAL = CHR ''N''"

subsection \<open>Order.hpp: the event record\<close>

record Order =
  order_id :: u64
  price_scaled :: u64
  order_size :: u32
  side :: char
  action :: char
  ts_recv :: string
  ts_event :: string
  flags :: u32
  ts_in_delta :: u64
  sequence :: u64
  symbol :: string

definition get_price :: "Order \<Rightarrow> real" where
  "get_price order = real (unat (price_scaled order)) / 10 ^ 9"

definition is_bid :: "Order \<Rightarrow> bool" where
  "is_bid order \<longleftrightarrow> side order = CHR ''B''"

definition is_ask :: "Order \<Rightarrow> bool" where
  "is_ask order \<longleftrightarrow> side order = CHR ''A''"

definition is_valid :: "Order \<Rightarrow> bool" where
  "is_valid order \<longleftrightarrow> side order = CHR ''B'' \<or> side order = CHR ''A''"

subsection \<open>Orderbook.hpp: PriceLevel\<close>

record PriceLevel =
  level_price_scaled :: u64
  total_size :: u64
  order_count :: u32
  order_ids :: "u64 list"

text \<open>The two constructors of \<^verbatim>\<open>PriceLevel\<close>.\<close>

definition PriceLevel_default :: PriceLevel where
  "PriceLevel_default =
     \<lparr>level_price_scaled = 0, total_size = 0, order_count = 0, order_ids = []\<rparr>"

definition PriceLevel_new :: "u64 \<Rightarrow> u64 \<Rightarrow> u64 \<Rightarrow> PriceLevel" where
  "PriceLevel_new price sz oid =
     \<lparr>level_price_scaled = price, total_size = sz, order_count = 1, order_ids = [oid]\<rparr>"

text \<open>\<^verbatim>\<open>PriceLevel::add_order\<close>: push the id, add the size, count one more.\<close>

definition level_add_order :: "u64 \<Rightarrow> u64 \<Rightarrow> PriceLevel \<Rightarrow> PriceLevel" where
  "level_add_order oid sz l =
     l\<lparr>order_ids := order_ids l @ [oid],
       total_size := total_size l + sz,
       order_count := order_count l + 1\<rparr>"

text \<open>
  \<^verbatim>\<open>PriceLevel::remove_order\<close>: \<^verbatim>\<open>std::find\<close> locates the first occurrence of the id;
  when there is one it is erased, the size and the count are decreased, and the result
  says whether the count has reached zero. A miss changes nothing and returns false.
  The level is mutated in place, so the model returns the flag and the new level.
\<close>

definition level_remove_order :: "u64 \<Rightarrow> u64 \<Rightarrow> PriceLevel \<Rightarrow> bool \<times> PriceLevel" where
  "level_remove_order oid sz l =
     (if oid \<in> set (order_ids l) then
        (let l' = l\<lparr>order_ids := remove1 oid (order_ids l),
                     total_size := total_size l - sz,
                     order_count := order_count l - 1\<rparr>
         in (order_count l' = 0, l'))
      else (False, l))"

definition level_get_price :: "PriceLevel \<Rightarrow> real" where
  "level_get_price l = real (unat (level_price_scaled l)) / 10 ^ 9"

subsection \<open>Orderbook.hpp: MBPRow, OrderInfo and the book\<close>

record Level =
  lv_price :: real
  lv_size :: u64
  lv_count :: u32

definition Level_default :: Level where
  "Level_default = \<lparr>lv_price = 0, lv_size = 0, lv_count = 0\<rparr>"

record MBPRow =
  row_ts_recv :: string
  row_ts_event :: string
  rtype :: int
  publisher_id :: int
  instrument_id :: int
  row_action :: char
  row_side :: char
  depth :: int
  row_price :: real
  row_size :: u64
  row_flags :: u32
  row_ts_in_delta :: u64
  row_sequence :: u64
  row_symbol :: string
  row_order_id :: u64
  row_bid_levels :: "Level list"
  row_ask_levels :: "Level list"

text \<open>\<^verbatim>\<open>MBPRow()\<close>: the fixed literals, and two arrays of \<^verbatim>\<open>MAX_DEPTH\<close> default levels.\<close>

definition MBPRow_default :: MBPRow where
  "MBPRow_default =
     \<lparr>row_ts_recv = [], row_ts_event = [], rtype = 10, publisher_id = 2,
      instrument_id = 1108, row_action = CHR '' '', row_side = CHR ''N'', depth = 0,
      row_price = 0, row_size = 0, row_flags = 0, row_ts_in_delta = 0, row_sequence = 0,
      row_symbol = [], row_order_id = 0,
      row_bid_levels = replicate 10 Level_default,
      row_ask_levels = replicate 10 Level_default\<rparr>"

record OrderInfo =
  info_side :: char
  info_price_scaled :: u64
  info_size :: u64

type_synonym level_map = "(u64 \<times> PriceLevel) list"

record OrderBook =
  bid_levels :: level_map
  ask_levels :: level_map
  active_orders :: "u64 \<rightharpoonup> OrderInfo"

text \<open>The comparators of the two maps: \<^verbatim>\<open>std::greater\<close> for bids, \<^verbatim>\<open>std::less\<close> for asks.\<close>

definition bid_comp :: "u64 \<Rightarrow> u64 \<Rightarrow> bool" where
  "bid_comp a b \<longleftrightarrow> b < a"

definition ask_comp :: "u64 \<Rightarrow> u64 \<Rightarrow> bool" where
  "ask_comp a b \<longleftrightarrow> a < b"

text \<open>The book a freshly constructed \<^verbatim>\<open>OrderBook\<close> holds, and the one \<^verbatim>\<open>clear()\<close> leaves.\<close>

definition empty_book :: OrderBook where
  "empty_book = \<lparr>bid_levels = [], ask_levels = [], active_orders = Map.empty\<rparr>"

definition clear :: "OrderBook \<Rightarrow> OrderBook" where
  "clear b = b\<lparr>bid_levels := [], ask_levels := [], active_orders := Map.empty\<rparr>"

subsection \<open>The operations of std::map the book uses\<close>

text \<open>
  \<^verbatim>\<open>m.find(k)\<close> is \<^const>\<open>map_of\<close>. \<^verbatim>\<open>m[k]\<close> inserts a default-constructed level at
  the key's place in the order when the key is absent, and leaves the map as it is
  otherwise. Writing through the reference or iterator is \<open>map_assign\<close>;
  \<^verbatim>\<open>m.erase(it)\<close> removes the entry the iterator points at.
\<close>

fun map_subscript :: "(u64 \<Rightarrow> u64 \<Rightarrow> bool) \<Rightarrow> u64 \<Rightarrow> level_map \<Rightarrow> level_map" where
  "map_subscript cmp k [] = [(k, PriceLevel_default)]"
| "map_subscript cmp k ((k', v) # rest) =
     (if k' = k then (k', v) # rest
      else if cmp k k' then (k, PriceLevel_default) # (k', v) # rest
      else (k', v) # map_subscript cmp k rest)"

fun map_assign :: "u64 \<Rightarrow> PriceLevel \<Rightarrow> level_map \<Rightarrow> level_map" where
  "map_assign k v [] = []"
| "map_assign k v ((k', v') # rest) =
     (if k' = k then (k', v) # rest else (k', v') # map_assign k v rest)"

fun map_erase :: "u64 \<Rightarrow> level_map \<Rightarrow> level_map" where
  "map_erase k [] = []"
| "map_erase k ((k', v') # rest) =
     (if k' = k then rest else (k', v') # map_erase k rest)"

subsection \<open>Orderbook.cpp: depth and the top-10 test\<close>

text \<open>
  The loop of \<^verbatim>\<open>get_price_depth\<close> over one side: return the counter at the first key equal
  to the price; count up; leave the loop when the counter reaches \<^verbatim>\<open>MAX_DEPTH\<close>. Leaving
  the loop, or running out of levels, returns \<open>-1\<close>.
\<close>

fun depth_loop :: "u64 \<Rightarrow> int \<Rightarrow> level_map \<Rightarrow> int" where
  "depth_loop p d [] = - 1"
| "depth_loop p d ((price, level_info) # rest) =
     (if price = p then d
      else if d + 1 \<ge> MAX_DEPTH then - 1
      else depth_loop p (d + 1) rest)"

definition get_price_depth :: "OrderBook \<Rightarrow> char \<Rightarrow> u64 \<Rightarrow> int" where
  "get_price_depth b sd p =
     (if sd = SIDE_BID then depth_loop p 0 (bid_levels b)
      else if sd = SIDE_ASK then depth_loop p 0 (ask_levels b)
      else - 1)"

definition affects_top_levels :: "OrderBook \<Rightarrow> char \<Rightarrow> u64 \<Rightarrow> bool" where
  "affects_top_levels b sd p =
     (let d = get_price_depth b sd p in d \<ge> 0 \<and> d < MAX_DEPTH)"

subsection \<open>Orderbook.cpp: add, cancel, trade\<close>

text \<open>
  The body shared by the bid and the ask branch of \<^verbatim>\<open>add_order\<close>: take \<^verbatim>\<open>levels[price]\<close>
  (creating it), and either overwrite a level whose count is zero with a new one-order
  level or add the order to the level.
\<close>

definition add_to_levels ::
  "(u64 \<Rightarrow> u64 \<Rightarrow> bool) \<Rightarrow> Order \<Rightarrow> level_map \<Rightarrow> level_map" where
  "add_to_levels cmp order m =
     (let m' = map_subscript cmp (price_scaled order) m in
      case map_of m' (price_scaled order) of
        None \<Rightarrow> m'
      | Some level \<Rightarrow>
          if order_count level = 0 then
            map_assign (price_scaled order)
              (PriceLevel_new (price_scaled order) (ucast (order_size order)) (order_id order)) m'
          else
            map_assign (price_scaled order)
              (level_add_order (order_id order) (ucast (order_size order)) level) m')"

definition add_order :: "OrderBook \<Rightarrow> Order \<Rightarrow> bool \<times> OrderBook" where
  "add_order b order =
     (if \<not> is_valid order \<or> price_scaled order = 0 \<or> order_size order = 0 then (False, b)
      else
        let b1 = b\<lparr>active_orders := (active_orders b)(order_id order \<mapsto>
                     \<lparr>info_side = side order, info_price_scaled = price_scaled order,
                      info_size = ucast (order_size order)\<rparr>)\<rparr>;
            b2 = (if is_bid order then
                    b1\<lparr>bid_levels := add_to_levels bid_comp order (bid_levels b1)\<rparr>
                  else if is_ask order then
                    b1\<lparr>ask_levels := add_to_levels ask_comp order (ask_levels b1)\<rparr>
                  else b1)
        in (affects_top_levels b2 (side order) (price_scaled order), b2))"

text \<open>
  The body shared by the two branches of \<^verbatim>\<open>cancel_order\<close>: find the level at the stored
  price; when it is there, remove the order from it and erase the level if the removal
  reports it empty.
\<close>

definition remove_from_levels :: "u64 \<Rightarrow> OrderInfo \<Rightarrow> level_map \<Rightarrow> level_map" where
  "remove_from_levels oid order_info m =
     (case map_of m (info_price_scaled order_info) of
        None \<Rightarrow> m
      | Some level \<Rightarrow>
          (case level_remove_order oid (info_size order_info) level of
             (level_empty, level') \<Rightarrow>
               if level_empty then map_erase (info_price_scaled order_info) m
               else map_assign (info_price_scaled order_info) level' m))"

definition cancel_order :: "OrderBook \<Rightarrow> Order \<Rightarrow> bool \<times> OrderBook" where
  "cancel_order b order =
     (case active_orders b (order_id order) of
        None \<Rightarrow> (False, b)
      | Some order_info \<Rightarrow>
          let affects_top =
                affects_top_levels b (info_side order_info) (info_price_scaled order_info);
              b1 = (if info_side order_info = SIDE_BID then
                      b\<lparr>bid_levels := remove_from_levels (order_id order) order_info (bid_levels b)\<rparr>
                    else if info_side order_info = SIDE_ASK then
                      b\<lparr>ask_levels := remove_from_levels (order_id order) order_info (ask_levels b)\<rparr>
                    else b);
              b2 = b1\<lparr>active_orders := (active_orders b1)(order_id order := None)\<rparr>
          in (affects_top, b2))"

text \<open>
  The local \<^verbatim>\<open>effective_side\<close> of \<^verbatim>\<open>process_trade\<close>, computed after the neutral side has
  been turned away: the declared side, unless that side has no level at the price or a
  level whose count is zero, in which case it is the opposite side.
\<close>

definition effective_side :: "OrderBook \<Rightarrow> Order \<Rightarrow> char" where
  "effective_side b order =
     (if side order = SIDE_ASK then
        (case map_of (ask_levels b) (price_scaled order) of
           None \<Rightarrow> SIDE_BID
         | Some l \<Rightarrow> if order_count l = 0 then SIDE_BID else side order)
      else if side order = SIDE_BID then
        (case map_of (bid_levels b) (price_scaled order) of
           None \<Rightarrow> SIDE_ASK
         | Some l \<Rightarrow> if order_count l = 0 then SIDE_ASK else side order)
      else side order)"

text \<open>
  \<^verbatim>\<open>process_trade\<close> only reads the book (\<^verbatim>\<open>find\<close>, never \<^verbatim>\<open>operator[]\<close>), so it is a
  function of the book to its return value.
\<close>

definition process_trade :: "OrderBook \<Rightarrow> Order \<Rightarrow> bool" where
  "process_trade b order =
     (if side order = SIDE_NEUTRAL then False
      else affects_top_levels b (effective_side b order) (price_scaled order))"

subsection \<open>Orderbook.cpp: the snapshot\<close>

text \<open>
  The first loop of \<^verbatim>\<open>update_bid_levels\<close> / \<^verbatim>\<open>update_ask_levels\<close> writes one array slot per
  level until \<^verbatim>\<open>MAX_DEPTH\<close> slots are written and returns the count; the second loop
  resets the slots from there on.
\<close>

fun fill_levels :: "nat \<Rightarrow> level_map \<Rightarrow> Level list \<Rightarrow> nat \<times> Level list" where
  "fill_levels n [] arr = (n, arr)"
| "fill_levels n ((price, level_info) # rest) arr =
     (if int n \<ge> MAX_DEPTH then (n, arr)
      else fill_levels (n + 1) rest
             (arr[n := \<lparr>lv_price = level_get_price level_info,
                        lv_size = total_size level_info,
                        lv_count = order_count level_info\<rparr>]))"

definition clear_remaining :: "nat \<Rightarrow> Level list \<Rightarrow> Level list" where
  "clear_remaining n arr = fold (\<lambda>i a. a[i := Level_default]) [n ..< nat MAX_DEPTH] arr"

definition update_levels :: "level_map \<Rightarrow> Level list \<Rightarrow> Level list" where
  "update_levels m arr = (case fill_levels 0 m arr of (n, arr') \<Rightarrow> clear_remaining n arr')"

definition update_bid_levels :: "OrderBook \<Rightarrow> MBPRow \<Rightarrow> MBPRow" where
  "update_bid_levels b row = row\<lparr>row_bid_levels := update_levels (bid_levels b) (row_bid_levels row)\<rparr>"

definition update_ask_levels :: "OrderBook \<Rightarrow> MBPRow \<Rightarrow> MBPRow" where
  "update_ask_levels b row = row\<lparr>row_ask_levels := update_levels (ask_levels b) (row_ask_levels row)\<rparr>"

definition generate_mbp_snapshot :: "OrderBook \<Rightarrow> Order \<Rightarrow> MBPRow" where
  "generate_mbp_snapshot b triggering_order =
     (let row = MBPRow_default
            \<lparr>row_ts_recv := ts_recv triggering_order,
             row_ts_event := ts_event triggering_order,
             row_action := action triggering_order,
             row_side := side triggering_order,
             row_price := get_price triggering_order,
             row_size := ucast (order_size triggering_order),
             row_flags := flags triggering_order,
             row_ts_in_delta := ts_in_delta triggering_order,
             row_sequence := sequence triggering_order,
             row_symbol := symbol triggering_order,
             row_order_id := order_id triggering_order\<rparr>;
          row = row\<lparr>depth := get_price_depth b (side triggering_order)
                                 (price_scaled triggering_order)\<rparr>
      in update_ask_levels b (update_bid_levels b row))"

subsection \<open>Orderbook.cpp: process_order\<close>

text \<open>
  The dispatch on the action. The result is the book after the event and the snapshot
  the call returns (\<open>None\<close> for \<^verbatim>\<open>nullptr\<close>).
\<close>

definition process_order :: "OrderBook \<Rightarrow> Order \<Rightarrow> OrderBook \<times> MBPRow option" where
  "process_order b order =
     (case (if action order = ACTION_CLEAR then (False, clear b)
            else if action order = ACTION_ADD then add_order b order
            else if action order = ACTION_CANCEL then cancel_order b order
            else if action order = ACTION_TRADE then (process_trade b order, b)
            else if action order = ACTION_FILL then (False, b)
            else (False, b)) of
        (should_generate_mbp, b') \<Rightarrow>
          if should_generate_mbp then (b', Some (generate_mbp_snapshot b' order))
          else (b', None))"

subsection \<open>CsvWriter.cpp: row validation and the row index\<close>

definition validate_mbp_row :: "MBPRow \<Rightarrow> bool" where
  "validate_mbp_row r \<longleftrightarrow>
     \<not> (row_ts_recv r = [] \<or> row_ts_event r = []) \<and>
     row_symbol r \<noteq> [] \<and>
     \<not> (row_action r \<noteq> CHR ''A'' \<and> row_action r \<noteq> CHR ''C'' \<and> row_action r \<noteq> CHR ''T'' \<and>
        row_action r \<noteq> CHR ''F'' \<and> row_action r \<noteq> CHR ''R'') \<and>
     \<not> (row_side r \<noteq> CHR ''B'' \<and> row_side r \<noteq> CHR ''A'' \<and> row_side r \<noteq> CHR ''N'') \<and>
     list_all (\<lambda>i. \<not> (lv_price (row_bid_levels r ! i) < 0 \<or> lv_price (row_ask_levels r ! i) < 0))
       [0 ..< nat MAX_DEPTH]"

datatype error = WriteFailed

text \<open>
  The writer as the loop sees it: the index of the next row and the rows written so
  far, each with the index it was formatted with. The stream is taken to be open and
  healthy, so \<^verbatim>\<open>write_mbp_row\<close> fails exactly when the validation does.
\<close>

record CsvWriter =
  row_index :: u64
  rows_out :: "(u64 \<times> MBPRow) list"

definition new_writer :: CsvWriter where
  "new_writer = \<lparr>row_index = 0, rows_out = []\<rparr>"

definition write_mbp_row :: "CsvWriter \<Rightarrow> MBPRow \<Rightarrow> error + CsvWriter" where
  "write_mbp_row w r =
     (if \<not> validate_mbp_row r then Inl WriteFailed
      else Inr (w\<lparr>rows_out := rows_out w @ [(row_index w, r)], row_index := row_index w + 1\<rparr>))"

subsection \<open>main.cpp: the order loop of process_reconstruction\<close>

text \<open>
  The engine part of the loop body: the first event whose action is Clear is skipped
  and the flag is set; every other event goes to \<^verbatim>\<open>process_order\<close>.
\<close>

record Engine =
  first_clear_ignored :: bool
  order_book :: OrderBook

definition new_engine :: Engine where
  "new_engine = \<lparr>first_clear_ignored = False, order_book = empty_book\<rparr>"

definition engine_step :: "Engine \<Rightarrow> Order \<Rightarrow> Engine \<times> MBPRow option" where
  "engine_step e order =
     (if \<not> first_clear_ignored e \<and> action order = ACTION_CLEAR then
        (e\<lparr>first_clear_ignored := True\<rparr>, None)
      else
        case process_order (order_book e) order of
          (b', mbp_row) \<Rightarrow> (e\<lparr>order_book := b'\<rparr>, mbp_row))"

text \<open>The engine alone over a list of events, forgetting the snapshots.\<close>

fun engine_run :: "Engine \<Rightarrow> Order list \<Rightarrow> Engine" where
  "engine_run e [] = e"
| "engine_run e (order # rest) = engine_run (fst (engine_step e order)) rest"

text \<open>
  The loop with the writer: a snapshot is written as soon as it is produced, and a
  failed write ends the run with an error.
\<close>

fun process_orders :: "Engine \<Rightarrow> CsvWriter \<Rightarrow> Order list \<Rightarrow> error + (Engine \<times> CsvWriter)" where
  "process_orders e w [] = Inr (e, w)"
| "process_orders e w (order # rest) =
     (case engine_step e order of
        (e', None) \<Rightarrow> process_orders e' w rest
      | (e', Some r) \<Rightarrow>
          (case write_mbp_row w r of
             Inl err \<Rightarrow> Inl err
           | Inr w' \<Rightarrow> process_orders e' w' rest))"

subsection \<open>Order.hpp: the parameterised constructor, and the events of the fixtures\<close>

definition Order_new ::
  "u64 \<Rightarrow> u64 \<Rightarrow> u32 \<Rightarrow> char \<Rightarrow> char \<Rightarrow> string \<Rightarrow> string \<Rightarrow> u32 \<Rightarrow> u64 \<Rightarrow> u64 \<Rightarrow> string \<Rightarrow> Order" where
  "Order_new oid price sz s act ts_r ts_e f delta sq smb =
     \<lparr>order_id = oid, price_scaled = price, order_size = sz, side = s, action = act,
      ts_recv = ts_r, ts_event = ts_e, flags = f, ts_in_delta = delta, sequence = sq,
      symbol = smb\<rparr>"

text \<open>An event with the given action, id, side, price in whole units and size.\<close>

definition event :: "char \<Rightarrow> u64 \<Rightarrow> char \<Rightarrow> u64 \<Rightarrow> u32 \<Rightarrow> Order" where
  "event act oid s units sz =
     Order_new oid (units * 1000000000) sz s act ''ts_recv'' ''ts_event'' 0 0 0 ''SYM''"

definition S1_clear :: Order where "S1_clear = event (CHR ''R'') 0 (CHR ''N'') 0 0"
definition S1_add :: Order where "S1_add = event (CHR ''A'') 1 (CHR ''B'') 100 10"

definition S5_add :: Order where "S5_add = event (CHR ''A'') 7 (CHR ''B'') 100 3"
definition S5_trade :: Order where "S5_trade = event (CHR ''T'') 9 (CHR ''A'') 100 3"
definition S5_book :: OrderBook where "S5_book = snd (add_order empty_book S5_add)"

definition trade_neutral :: Order where "trade_neutral = event (CHR ''T'') 9 (CHR ''N'') 100 3"
definition trade_bid_100 :: Order where "trade_bid_100 = event (CHR ''T'') 9 (CHR ''B'') 100 3"
definition trade_bid_101 :: Order where "trade_bid_101 = event (CHR ''T'') 9 (CHR ''B'') 101 3"

definition add_zero_price :: Order where "add_zero_price = event (CHR ''A'') 5 (CHR ''B'') 0 10"

definition cancel_7_bid :: Order where "cancel_7_bid = event (CHR ''C'') 7 (CHR ''B'') 100 3"
definition cancel_7_ask :: Order where "cancel_7_ask = event (CHR ''C'') 7 (CHR ''A'') 55 9"

subsection \<open>The top ten of a side, in the words of the specification\<close>

text \<open>
  A side holds a price within its top ten levels when the price is one of the first ten
  keys of that side's map in iteration order. A side that is neither Bid nor Ask holds
  nothing.
\<close>

definition top10_keys :: "level_map \<Rightarrow> u64 list" where
  "top10_keys m = take 10 (map fst m)"

definition side_holds_in_top10 :: "OrderBook \<Rightarrow> char \<Rightarrow> u64 \<Rightarrow> bool" where
  "side_holds_in_top10 b sd p \<longleftrightarrow>
     (sd = SIDE_BID \<and> p \<in> set (top10_keys (bid_levels b))) \<or>
     (sd = SIDE_ASK \<and> p \<in> set (top10_keys (ask_levels b)))"

subsection \<open>The invariants of the book, in the words of the specification\<close>

text \<open>
  A comparator of \<^verbatim>\<open>std::map\<close> is a strict total order, and the map iterates its keys
  in that order: the list of keys is sorted by the comparator (P3).
\<close>

definition strict_order :: "(u64 \<Rightarrow> u64 \<Rightarrow> bool) \<Rightarrow> bool" where
  "strict_order cmp \<longleftrightarrow>
     (\<forall>a. \<not> cmp a a) \<and> (\<forall>a b c. cmp a b \<longrightarrow> cmp b c \<longrightarrow> cmp a c) \<and>
     (\<forall>a b. a \<noteq> b \<longrightarrow> cmp a b \<or> cmp b a)"

definition levels_sorted :: "(u64 \<Rightarrow> u64 \<Rightarrow> bool) \<Rightarrow> level_map \<Rightarrow> bool" where
  "levels_sorted cmp m \<longleftrightarrow> sorted_wrt cmp (map fst m)"

definition keys_ordered :: "OrderBook \<Rightarrow> bool" where
  "keys_ordered b \<longleftrightarrow>
     levels_sorted bid_comp (bid_levels b) \<and> levels_sorted ask_comp (ask_levels b)"

text \<open>
  I2, P2: a level in a map has at least one resident order, and its count is the number
  of resident ids. \<open>levels_bounded\<close> bounds the number of residents of every level.
\<close>

definition level_counted :: "PriceLevel \<Rightarrow> bool" where
  "level_counted l \<longleftrightarrow> order_ids l \<noteq> [] \<and> unat (order_count l) = length (order_ids l)"

definition levels_counted :: "level_map \<Rightarrow> bool" where
  "levels_counted m \<longleftrightarrow> list_all (\<lambda>(p, l). level_counted l) m"

definition levels_bounded :: "nat \<Rightarrow> level_map \<Rightarrow> bool" where
  "levels_bounded n m \<longleftrightarrow> list_all (\<lambda>(p, l). length (order_ids l) \<le> n) m"

definition book_counted :: "OrderBook \<Rightarrow> bool" where
  "book_counted b \<longleftrightarrow> levels_counted (bid_levels b) \<and> levels_counted (ask_levels b)"

definition book_bounded :: "nat \<Rightarrow> OrderBook \<Rightarrow> bool" where
  "book_bounded n b \<longleftrightarrow> levels_bounded n (bid_levels b) \<and> levels_bounded n (ask_levels b)"

text \<open>
  I1, P1, from the index to the level: the side and price recorded for a live id name a
  level of the corresponding side map, and the id is resident there. \<open>side_levels\<close> is
  the map of a side; a side that is neither Bid nor Ask has no levels.
\<close>

definition side_levels :: "OrderBook \<Rightarrow> char \<Rightarrow> level_map" where
  "side_levels b sd =
     (if sd = SIDE_BID then bid_levels b else if sd = SIDE_ASK then ask_levels b else [])"

definition indexed_in :: "(u64 \<rightharpoonup> OrderInfo) \<Rightarrow> char \<Rightarrow> level_map \<Rightarrow> bool" where
  "indexed_in orders sd m \<longleftrightarrow>
     (\<forall>oid info. orders oid = Some info \<longrightarrow> info_side info = sd \<longrightarrow>
        (\<exists>l. map_of m (info_price_scaled info) = Some l \<and> oid \<in> set (order_ids l)))"

definition index_to_level :: "OrderBook \<Rightarrow> bool" where
  "index_to_level b \<longleftrightarrow>
     (\<forall>oid info. active_orders b oid = Some info \<longrightarrow>
        (\<exists>l. map_of (side_levels b (info_side info)) (info_price_scaled info) = Some l \<and>
             oid \<in> set (order_ids l)))"

text \<open>
  I1, the converse, from the level to the index: every id resident in a level of a side
  is a key of the index, recorded with that side and that level's price. With it goes
  that no id is resident twice in a level.
\<close>

definition residents_indexed :: "(u64 \<rightharpoonup> OrderInfo) \<Rightarrow> char \<Rightarrow> level_map \<Rightarrow> bool" where
  "residents_indexed orders sd m \<longleftrightarrow>
     list_all (\<lambda>(p, l). list_all (\<lambda>oid.
        case orders oid of
          None \<Rightarrow> False
        | Some info \<Rightarrow> info_side info = sd \<and> info_price_scaled info = p) (order_ids l)) m"

definition level_to_index :: "OrderBook \<Rightarrow> bool" where
  "level_to_index b \<longleftrightarrow>
     residents_indexed (active_orders b) SIDE_BID (bid_levels b) \<and>
     residents_indexed (active_orders b) SIDE_ASK (ask_levels b)"

definition levels_ids_distinct :: "level_map \<Rightarrow> bool" where
  "levels_ids_distinct m \<longleftrightarrow> list_all (\<lambda>(p, l). distinct (order_ids l)) m"

definition book_ids_distinct :: "OrderBook \<Rightarrow> bool" where
  "book_ids_distinct b \<longleftrightarrow>
     levels_ids_distinct (bid_levels b) \<and> levels_ids_distinct (ask_levels b)"

definition book_wf :: "OrderBook \<Rightarrow> bool" where
  "book_wf b \<longleftrightarrow> keys_ordered b \<and> book_counted b \<and> index_to_level b"

definition book_exact :: "OrderBook \<Rightarrow> bool" where
  "book_exact b \<longleftrightarrow> level_to_index b \<and> book_ids_distinct b"

text \<open>
  An Add that passes the validation of \<^const>\<open>add_order\<close>; and a run in which no such
  Add carries an id that is live when the event is applied.
\<close>

definition add_accepted :: "Order \<Rightarrow> bool" where
  "add_accepted order \<longleftrightarrow>
     is_valid order \<and> price_scaled order \<noteq> 0 \<and> order_size order \<noteq> 0"


text \<open>The level \<^const>\<open>add_to_levels\<close> writes at the order's price, given the level found there.\<close>

definition added_level :: "Order \<Rightarrow> PriceLevel option \<Rightarrow> PriceLevel" where
  "added_level order lo =
     (case lo of
        None \<Rightarrow> PriceLevel_new (price_scaled order) (ucast (order_size order)) (order_id order)
      | Some l \<Rightarrow>
          if order_count l = 0 then
            PriceLevel_new (price_scaled order) (ucast (order_size order)) (order_id order)
          else level_add_order (order_id order) (ucast (order_size order)) l)"

text \<open>
  P2, the total: the total size of a level is the sum of the sizes the index stores for
  its resident ids (in 64-bit arithmetic).
\<close>

definition stored_size :: "(u64 \<rightharpoonup> OrderInfo) \<Rightarrow> u64 \<Rightarrow> u64" where
  "stored_size orders oid = (case orders oid of None \<Rightarrow> 0 | Some info \<Rightarrow> info_size info)"

definition levels_totalled :: "(u64 \<rightharpoonup> OrderInfo) \<Rightarrow> level_map \<Rightarrow> bool" where
  "levels_totalled orders m \<longleftrightarrow>
     list_all (\<lambda>(p, l). total_size l = sum_list (map (stored_size orders) (order_ids l))) m"

definition book_totalled :: "OrderBook \<Rightarrow> bool" where
  "book_totalled b \<longleftrightarrow>
     levels_totalled (active_orders b) (bid_levels b) \<and>
     levels_totalled (active_orders b) (ask_levels b)"

subsection \<open>More events for the examples\<close>

definition readd_7 :: Order where "readd_7 = event (CHR ''A'') 7 (CHR ''B'') 99 5"
definition cancel_7_99 :: Order where "cancel_7_99 = event (CHR ''C'') 7 (CHR ''B'') 99 5"
definition add_8 :: Order where "add_8 = event (CHR ''A'') 8 (CHR ''B'') 100 4"
definition cancel_8 :: Order where "cancel_8 = event (CHR ''C'') 8 (CHR ''B'') 100 4"

text \<open>
  A run of \<open>n\<close> accepted Adds with the ids \<open>1, \<dots>, n\<close>, all at the bid price 100 with size 1.
\<close>

definition wrap_add :: "nat \<Rightarrow> Order" where
  "wrap_add i = event (CHR ''A'') (of_nat i) (CHR ''B'') 100 1"

definition wrap_adds :: "nat \<Rightarrow> Order list" where
  "wrap_adds n = map wrap_add [1 ..< Suc n]"

definition wrap_info :: OrderInfo where
  "wrap_info = \<lparr>info_side = CHR ''B'', info_price_scaled = 100000000000, info_size = 1\<rparr>"





subsection \<open>Books for the examples of cancel\<close>




section \<open>Evaluation\<close>

lemmas model_defs =
  MAX_DEPTH_def ACTION_ADD_def ACTION_CANCEL_def ACTION_TRADE_def ACTION_FILL_def
  ACTION_CLEAR_def SIDE_BID_def SIDE_ASK_def SIDE_NEUTRAL_def
  get_price_def is_bid_def is_ask_def is_valid_def
  PriceLevel_default_def PriceLevel_new_def level_add_order_def level_remove_order_def
  level_get_price_def Level_default_def MBPRow_default_def bid_comp_def ask_comp_def
  empty_book_def clear_def get_price_depth_def affects_top_levels_def
  add_to_levels_def add_order_def remove_from_levels_def cancel_order_def
  effective_side_def process_trade_def clear_remaining_def update_levels_def
  update_bid_levels_def update_ask_levels_def generate_mbp_snapshot_def
  process_order_def validate_mbp_row_def new_writer_def write_mbp_row_def
  new_engine_def engine_step_def

lemmas fixture_defs =
  Order_new_def event_def S1_clear_def S1_add_def S5_add_def S5_trade_def S5_book_def
  trade_neutral_def trade_bid_100_def trade_bid_101_def add_zero_price_def
  cancel_7_bid_def cancel_7_ask_def


lemmas invariant_defs =
  keys_ordered_def levels_sorted_def book_counted_def levels_counted_def level_counted_def
  level_to_index_def residents_indexed_def book_ids_distinct_def levels_ids_distinct_def
  book_exact_def side_levels_def add_accepted_def

lemma replicate_10: "replicate 10 x = [x, x, x, x, x, x, x, x, x, x]"
  by (simp add: numeral_eq_Suc)

lemma replicate_9: "replicate 9 x = [x, x, x, x, x, x, x, x, x]"
  by (simp add: numeral_eq_Suc)

lemma S5_book_eval:
  "S5_book =
     \<lparr>bid_levels = [(100000000000, \<lparr>level_price_scaled = 100000000000, total_size = 3,
                       order_count = 1, order_ids = [7]\<rparr>)],
      ask_levels = [],
      active_orders = [7 \<mapsto> \<lparr>info_side = CHR ''B'', info_price_scaled = 100000000000,
                                info_size = 3\<rparr>]\<rparr>"
  by (simp add: model_defs fixture_defs)

section \<open>The top-10 test\<close>

lemma depth_loop_in_top:
  "0 \<le> d \<Longrightarrow> d < 10 \<Longrightarrow>
   (0 \<le> depth_loop p d m \<and> depth_loop p d m < MAX_DEPTH) \<longleftrightarrow>
   p \<in> set (take (nat (10 - d)) (map fst m))"
proof (induction m arbitrary: d)
  case Nil
  then show ?case by simp
next
  case (Cons a m)
  obtain k v where a: "a = (k, v)" by (cases a)
  show ?case
  proof (cases "k = p")
    case True
    with Cons.prems a show ?thesis
      by (cases "nat (10 - d)") (auto simp: MAX_DEPTH_def)
  next
    case False
    show ?thesis
    proof (cases "d + 1 \<ge> 10")
      case True
      with Cons.prems have "nat (10 - d) = Suc 0" by simp
      with False a True show ?thesis by (simp add: MAX_DEPTH_def)
    next
      case False2: False
      then have "nat (10 - d) = Suc (nat (10 - (d + 1)))" using Cons.prems by simp
      moreover have "(0 \<le> depth_loop p (d + 1) m \<and> depth_loop p (d + 1) m < MAX_DEPTH) \<longleftrightarrow>
          p \<in> set (take (nat (10 - (d + 1))) (map fst m))"
        using Cons.IH[of "d + 1"] Cons.prems False2 by simp
      ultimately show ?thesis using False a False2 by (simp add: MAX_DEPTH_def)
    qed
  qed
qed

lemma affects_top_levels_iff:
  "affects_top_levels b sd p \<longleftrightarrow> side_holds_in_top10 b sd p"
  using depth_loop_in_top[of 0 p "bid_levels b"] depth_loop_in_top[of 0 p "ask_levels b"]
  by (auto simp: affects_top_levels_def get_price_depth_def side_holds_in_top10_def
      top10_keys_def Let_def MAX_DEPTH_def SIDE_BID_def SIDE_ASK_def)

section \<open>The order loop\<close>

lemma engine_run_append: "engine_run e (xs @ ys) = engine_run (engine_run e xs) ys"
  by (induction xs arbitrary: e) simp_all

lemma engine_step_flag_no_clear:
  "action x \<noteq> ACTION_CLEAR \<Longrightarrow>
   first_clear_ignored (fst (engine_step e x)) = first_clear_ignored e"
  by (simp add: engine_step_def split: prod.splits)

lemma engine_run_flag_no_clear:
  "list_all (\<lambda>x. action x \<noteq> ACTION_CLEAR) xs \<Longrightarrow>
   first_clear_ignored (engine_run e xs) = first_clear_ignored e"
  by (induction xs arbitrary: e) (simp_all add: engine_step_flag_no_clear)

lemma process_orders_engine:
  "process_orders e w xs = Inr (e', w') \<Longrightarrow> e' = engine_run e xs"
proof (induction xs arbitrary: e w)
  case Nil
  then show ?case by simp
next
  case (Cons x xs)
  obtain e1 r where st: "engine_step e x = (e1, r)" by (cases "engine_step e x")
  show ?case
  proof (cases r)
    case None
    with Cons st show ?thesis by simp
  next
    case (Some row)
    with Cons.prems st obtain w1 where "write_mbp_row w row = Inr w1"
      and "process_orders e1 w1 xs = Inr (e', w')"
      by (auto split: sum.splits)
    with Cons.IH st show ?thesis by simp
  qed
qed

lemma process_orders_append:
  "process_orders e w (xs @ ys) =
     (case process_orders e w xs of
        Inl err \<Rightarrow> Inl err
      | Inr (e', w') \<Rightarrow> process_orders e' w' ys)"
  by (induction xs arbitrary: e w) (auto split: prod.splits option.splits sum.splits)

lemma first_clear_step:
  "\<not> first_clear_ignored e \<Longrightarrow> action c = ACTION_CLEAR \<Longrightarrow>
   engine_step e c = (e\<lparr>first_clear_ignored := True\<rparr>, None)"
  by (simp add: engine_step_def)

section \<open>The ordered maps and the invariants\<close>

lemma bid_comp_order: "strict_order bid_comp"
  by (auto simp: strict_order_def bid_comp_def)

lemma ask_comp_order: "strict_order ask_comp"
  by (auto simp: strict_order_def ask_comp_def)

lemma levels_sorted_Cons:
  "levels_sorted cmp ((k, v) # m) \<longleftrightarrow> (\<forall>x \<in> set m. cmp k (fst x)) \<and> levels_sorted cmp m"
  by (simp add: levels_sorted_def)

lemma levels_sorted_distinct:
  "strict_order cmp \<Longrightarrow> levels_sorted cmp m \<Longrightarrow> distinct (map fst m)"
  by (induction m) (auto simp: levels_sorted_def strict_order_def)

lemma map_of_key: "map_of m k = Some v \<Longrightarrow> (k, v) \<in> set m"
  by (rule map_of_SomeD)

lemma sorted_head_absent:
  "strict_order cmp \<Longrightarrow> levels_sorted cmp ((k, v) # m) \<Longrightarrow> map_of m k = None"
proof (rule ccontr)
  assume so: "strict_order cmp" and s: "levels_sorted cmp ((k, v) # m)" and "map_of m k \<noteq> None"
  then obtain l where "map_of m k = Some l" by auto
  then have "(k, l) \<in> set m" by (rule map_of_key)
  with s have "cmp k k" by (auto simp: levels_sorted_Cons)
  with so show False by (simp add: strict_order_def)
qed

subsection \<open>operator[]\<close>

lemma keys_map_subscript:
  "x \<in> set (map_subscript cmp k m) \<Longrightarrow> x = (k, PriceLevel_default) \<or> x \<in> set m"
  by (induction m) (auto split: if_splits)

lemma sorted_map_subscript:
  "strict_order cmp \<Longrightarrow> levels_sorted cmp m \<Longrightarrow> levels_sorted cmp (map_subscript cmp k m)"
proof (induction m)
  case Nil
  then show ?case by (simp add: levels_sorted_def)
next
  case (Cons a m)
  obtain k' v where a: "a = (k', v)" by (cases a)
  from Cons.prems a have hd: "\<forall>x \<in> set m. cmp k' (fst x)" and tl: "levels_sorted cmp m"
    by (simp_all add: levels_sorted_Cons)
  show ?case
  proof (cases "k' = k")
    case True
    with Cons.prems a show ?thesis by simp
  next
    case neq: False
    show ?thesis
    proof (cases "cmp k k'")
      case True
      have "\<forall>x \<in> set m. cmp k (fst x)"
        using hd True Cons.prems(1) by (auto simp: strict_order_def)
      with True neq a hd tl show ?thesis by (simp add: levels_sorted_Cons)
    next
      case False
      with neq Cons.prems(1) have "cmp k' k" by (auto simp: strict_order_def)
      with hd have "\<forall>x \<in> set (map_subscript cmp k m). cmp k' (fst x)"
        using keys_map_subscript[of _ cmp k m] by fastforce
      with False neq a Cons.IH[OF Cons.prems(1) tl] show ?thesis
        by (simp add: levels_sorted_Cons)
    qed
  qed
qed

lemma map_subscript_present:
  "strict_order cmp \<Longrightarrow> levels_sorted cmp m \<Longrightarrow> map_of m k = Some l \<Longrightarrow>
   map_subscript cmp k m = m"
proof (induction m)
  case Nil
  then show ?case by simp
next
  case (Cons a m)
  obtain k' v where a: "a = (k', v)" by (cases a)
  from Cons.prems a have hd: "\<forall>x \<in> set m. cmp k' (fst x)" and tl: "levels_sorted cmp m"
    by (simp_all add: levels_sorted_Cons)
  show ?case
  proof (cases "k' = k")
    case True
    with a show ?thesis by simp
  next
    case False
    with Cons.prems(3) a have in_tl: "map_of m k = Some l" by simp
    then have "(k, l) \<in> set m" by (rule map_of_key)
    with hd have "cmp k' k" by auto
    with Cons.prems(1) have "\<not> cmp k k'" by (auto simp: strict_order_def)
    with False a Cons.IH[OF Cons.prems(1) tl in_tl] show ?thesis by simp
  qed
qed

lemma map_of_map_subscript_absent:
  "map_of m k = None \<Longrightarrow>
   map_of (map_subscript cmp k m) = (map_of m)(k \<mapsto> PriceLevel_default)"
  by (induction m) (auto simp: fun_eq_iff split: if_splits)

subsection \<open>Writing through a reference\<close>

lemma keys_map_assign: "map fst (map_assign k v m) = map fst m"
  by (induction m) auto

lemma sorted_map_assign: "levels_sorted cmp (map_assign k v m) = levels_sorted cmp m"
  by (simp add: levels_sorted_def keys_map_assign)

lemma map_of_map_assign:
  "map_of m k = Some l \<Longrightarrow> map_of (map_assign k v m) = (map_of m)(k \<mapsto> v)"
  by (induction m) (auto simp: fun_eq_iff split: if_splits)

lemma map_assign_same: "map_of m k = Some l \<Longrightarrow> map_assign k l m = m"
  by (induction m) (auto split: if_splits)

lemma map_assign_twice: "map_assign k v (map_assign k v' m) = map_assign k v m"
  by (induction m) auto

subsection \<open>erase\<close>

lemma keys_map_erase: "x \<in> set (map_erase k m) \<Longrightarrow> x \<in> set m"
  by (induction m) (auto split: if_splits)

lemma sorted_map_erase: "levels_sorted cmp m \<Longrightarrow> levels_sorted cmp (map_erase k m)"
proof (induction m)
  case Nil
  then show ?case by simp
next
  case (Cons a m)
  obtain k' v where a: "a = (k', v)" by (cases a)
  with Cons show ?case
    using keys_map_erase[of _ k m] by (auto simp: levels_sorted_Cons)
qed

lemma map_of_map_erase:
  "strict_order cmp \<Longrightarrow> levels_sorted cmp m \<Longrightarrow>
   map_of (map_erase k m) = (map_of m)(k := None)"
proof (induction m)
  case Nil
  then show ?case by simp
next
  case (Cons a m)
  obtain k' v where a: "a = (k', v)" by (cases a)
  from Cons.prems a have tl: "levels_sorted cmp m" by (simp add: levels_sorted_Cons)
  show ?case
  proof (cases "k' = k")
    case True
    have "map_of m k = None"
      using sorted_head_absent[OF Cons.prems(1)] Cons.prems(2) a True by simp
    with True a show ?thesis by (auto simp: fun_eq_iff)
  next
    case False
    with a Cons.IH[OF Cons.prems(1) tl] show ?thesis by (auto simp: fun_eq_iff)
  qed
qed

lemma erase_assign_subscript:
  "map_of m k = None \<Longrightarrow> map_erase k (map_assign k v (map_subscript cmp k m)) = m"
  by (induction m) (auto split: if_splits)

lemma list_all_map_of:
  "distinct (map fst m) \<Longrightarrow>
   list_all (\<lambda>(p, l). Q p l) m \<longleftrightarrow> (\<forall>p l. map_of m p = Some l \<longrightarrow> Q p l)"
  by (auto simp: list_all_iff)

lemma levels_counted_iff:
  "strict_order cmp \<Longrightarrow> levels_sorted cmp m \<Longrightarrow>
   levels_counted m \<longleftrightarrow> (\<forall>p l. map_of m p = Some l \<longrightarrow> level_counted l)"
  unfolding levels_counted_def
  by (rule list_all_map_of) (rule levels_sorted_distinct)

lemma levels_bounded_iff:
  "strict_order cmp \<Longrightarrow> levels_sorted cmp m \<Longrightarrow>
   levels_bounded n m \<longleftrightarrow> (\<forall>p l. map_of m p = Some l \<longrightarrow> length (order_ids l) \<le> n)"
  unfolding levels_bounded_def
  by (rule list_all_map_of) (rule levels_sorted_distinct)

lemma levels_ids_distinct_iff:
  "strict_order cmp \<Longrightarrow> levels_sorted cmp m \<Longrightarrow>
   levels_ids_distinct m \<longleftrightarrow> (\<forall>p l. map_of m p = Some l \<longrightarrow> distinct (order_ids l))"
  unfolding levels_ids_distinct_def
  by (rule list_all_map_of) (rule levels_sorted_distinct)

lemma residents_indexed_iff:
  "strict_order cmp \<Longrightarrow> levels_sorted cmp m \<Longrightarrow>
   residents_indexed orders sd m \<longleftrightarrow>
     (\<forall>p l oid. map_of m p = Some l \<longrightarrow> oid \<in> set (order_ids l) \<longrightarrow>
        (\<exists>info. orders oid = Some info \<and> info_side info = sd \<and> info_price_scaled info = p))"
proof -
  assume "strict_order cmp" "levels_sorted cmp m"
  then have d: "distinct (map fst m)" by (rule levels_sorted_distinct)
  have inner: "list_all (\<lambda>oid. case orders oid of None \<Rightarrow> False
        | Some info \<Rightarrow> info_side info = sd \<and> info_price_scaled info = p) ids \<longleftrightarrow>
      (\<forall>oid \<in> set ids. \<exists>info. orders oid = Some info \<and> info_side info = sd \<and>
         info_price_scaled info = p)" for p ids
    by (induction ids) (auto split: option.splits)
  show ?thesis
    unfolding residents_indexed_def list_all_map_of[OF d] inner by blast
qed

subsection \<open>What add and cancel do to one side, as a map\<close>

lemma add_to_levels_sorted:
  "strict_order cmp \<Longrightarrow> levels_sorted cmp m \<Longrightarrow> levels_sorted cmp (add_to_levels cmp order m)"
  by (auto simp: add_to_levels_def Let_def sorted_map_assign sorted_map_subscript
      split: option.splits)

lemma add_to_levels_absent:
  "map_of m (price_scaled order) = None \<Longrightarrow>
   add_to_levels cmp order m =
     map_assign (price_scaled order) (added_level order None)
       (map_subscript cmp (price_scaled order) m)"
  by (simp add: add_to_levels_def Let_def map_of_map_subscript_absent added_level_def
      PriceLevel_default_def)

lemma add_to_levels_present:
  "strict_order cmp \<Longrightarrow> levels_sorted cmp m \<Longrightarrow> map_of m (price_scaled order) = Some l \<Longrightarrow>
   add_to_levels cmp order m = map_assign (price_scaled order) (added_level order (Some l)) m"
  by (simp add: add_to_levels_def Let_def map_subscript_present added_level_def)

lemma map_of_add_to_levels:
  assumes "strict_order cmp" "levels_sorted cmp m"
  shows "map_of (add_to_levels cmp order m) =
     (map_of m)(price_scaled order \<mapsto> added_level order (map_of m (price_scaled order)))"
proof (cases "map_of m (price_scaled order)")
  case None
  have "map_of (map_subscript cmp (price_scaled order) m) (price_scaled order)
      = Some PriceLevel_default"
    by (simp add: map_of_map_subscript_absent[OF None])
  then show ?thesis
    by (simp add: add_to_levels_absent[OF None] None map_of_map_assign
        map_of_map_subscript_absent[OF None])
next
  case (Some l)
  then show ?thesis
    by (simp add: add_to_levels_present[OF assms Some] map_of_map_assign)
qed

lemma remove_from_levels_sorted:
  "levels_sorted cmp m \<Longrightarrow> levels_sorted cmp (remove_from_levels oid info m)"
  by (auto simp: remove_from_levels_def sorted_map_assign sorted_map_erase
      split: option.splits prod.splits)

lemma map_of_remove_from_levels:
  assumes "strict_order cmp" "levels_sorted cmp m"
  shows "map_of (remove_from_levels oid info m) =
     (case map_of m (info_price_scaled info) of
        None \<Rightarrow> map_of m
      | Some l \<Rightarrow>
          if fst (level_remove_order oid (info_size info) l)
          then (map_of m)(info_price_scaled info := None)
          else (map_of m)(info_price_scaled info \<mapsto>
                 snd (level_remove_order oid (info_size info) l)))"
  by (auto simp: remove_from_levels_def map_of_map_erase[OF assms] map_of_map_assign
      split: option.splits prod.splits)

subsection \<open>One level\<close>

lemma level_counted_nonzero: "level_counted l \<Longrightarrow> order_count l \<noteq> 0"
  by (auto simp: level_counted_def)

lemma added_level_None_ids:
  "order_ids (added_level order None) = [order_id order]"
  by (simp add: added_level_def PriceLevel_new_def)

lemma added_level_Some_ids:
  "level_counted l \<Longrightarrow> order_ids (added_level order (Some l)) = order_ids l @ [order_id order]"
  by (simp add: added_level_def level_add_order_def level_counted_nonzero)

lemma added_level_counted:
  assumes "\<And>l. lo = Some l \<Longrightarrow> level_counted l \<and> length (order_ids l) \<le> n"
    and "Suc n < 2 ^ 32"
  shows "level_counted (added_level order lo) \<and>
         length (order_ids (added_level order lo)) \<le> Suc n"
proof (cases lo)
  case None
  then show ?thesis
    by (simp add: added_level_def PriceLevel_new_def level_counted_def)
next
  case (Some l)
  with assms(1) have c: "level_counted l" and b: "length (order_ids l) \<le> n" by auto
  from c have eq: "unat (order_count l) = length (order_ids l)"
    by (simp add: level_counted_def)
  have "unat (order_count l) + unat (1 :: u32) < 2 ^ LENGTH(32)"
    using eq b assms(2) by simp
  then have "unat (order_count l + 1) = unat (order_count l) + unat (1 :: u32)"
    by (simp only: unat_add_lem)
  with eq have "unat (order_count l + 1) = Suc (length (order_ids l))" by simp
  with Some c b show ?thesis
    by (simp add: added_level_def level_add_order_def level_counted_nonzero level_counted_def)
qed

lemma level_remove_order_hit:
  assumes "level_counted l" and "oid \<in> set (order_ids l)"
  shows "order_ids (snd (level_remove_order oid sz l)) = remove1 oid (order_ids l)"
    and "fst (level_remove_order oid sz l) \<longleftrightarrow> remove1 oid (order_ids l) = []"
    and "\<not> fst (level_remove_order oid sz l) \<Longrightarrow> level_counted (snd (level_remove_order oid sz l))"
proof -
  from assms have nz: "order_count l \<noteq> 0" and eq: "unat (order_count l) = length (order_ids l)"
    by (auto simp: level_counted_def)
  have dec: "unat (order_count l - 1) = length (remove1 oid (order_ids l))"
    using nz eq assms(2) by (simp add: unat_minus_one length_remove1)
  show "order_ids (snd (level_remove_order oid sz l)) = remove1 oid (order_ids l)"
    using assms(2) by (simp add: level_remove_order_def Let_def)
  show e: "fst (level_remove_order oid sz l) \<longleftrightarrow> remove1 oid (order_ids l) = []"
    using assms(2) dec by (simp add: level_remove_order_def Let_def unat_eq_0[symmetric])
  show "level_counted (snd (level_remove_order oid sz l))"
    if "\<not> fst (level_remove_order oid sz l)"
    using that e assms(2) dec by (simp add: level_remove_order_def Let_def level_counted_def)
qed

lemma level_remove_order_miss:
  "oid \<notin> set (order_ids l) \<Longrightarrow> level_remove_order oid sz l = (False, l)"
  by (simp add: level_remove_order_def)

subsection \<open>Counts\<close>

lemma add_to_levels_counted:
  assumes so: "strict_order cmp" and s: "levels_sorted cmp m"
    and c: "levels_counted m" and b: "levels_bounded n m" and n: "Suc n < 2 ^ 32"
  shows "levels_counted (add_to_levels cmp order m) \<and>
         levels_bounded (Suc n) (add_to_levels cmp order m)"
proof -
  let ?p = "price_scaled order"
  have s': "levels_sorted cmp (add_to_levels cmp order m)"
    by (rule add_to_levels_sorted[OF so s])
  have c0: "\<And>p l. map_of m p = Some l \<Longrightarrow> level_counted l"
    using c levels_counted_iff[OF so s] by blast
  have b0: "\<And>p l. map_of m p = Some l \<Longrightarrow> length (order_ids l) \<le> n"
    using b levels_bounded_iff[OF so s] by blast
  have new: "level_counted (added_level order (map_of m ?p)) \<and>
         length (order_ids (added_level order (map_of m ?p))) \<le> Suc n"
    by (rule added_level_counted[OF _ n]) (auto dest: c0 b0)
  have "level_counted l \<and> length (order_ids l) \<le> Suc n"
    if "map_of (add_to_levels cmp order m) p = Some l" for p l
  proof (cases "p = ?p")
    case True
    with that new show ?thesis by (simp add: map_of_add_to_levels[OF so s])
  next
    case False
    with that have "map_of m p = Some l" by (simp add: map_of_add_to_levels[OF so s])
    with c0 b0 show ?thesis by fastforce
  qed
  then show ?thesis
    using levels_counted_iff[OF so s'] levels_bounded_iff[OF so s'] by blast
qed

lemma remove_from_levels_counted:
  assumes so: "strict_order cmp" and s: "levels_sorted cmp m" and c: "levels_counted m"
  shows "levels_counted (remove_from_levels oid info m)"
proof -
  let ?p = "info_price_scaled info"
  have s': "levels_sorted cmp (remove_from_levels oid info m)"
    by (rule remove_from_levels_sorted[OF s])
  have c0: "\<And>p l. map_of m p = Some l \<Longrightarrow> level_counted l"
    using c levels_counted_iff[OF so s] by blast
  have "level_counted l" if hyp: "map_of (remove_from_levels oid info m) p = Some l" for p l
  proof (cases "map_of m ?p")
    case None
    with hyp c0 show ?thesis by (simp add: map_of_remove_from_levels[OF so s])
  next
    case (Some l0)
    then have cl0: "level_counted l0" by (rule c0)
    show ?thesis
    proof (cases "oid \<in> set (order_ids l0)")
      case False
      with hyp Some have "map_of m p = Some l"
        by (simp add: map_of_remove_from_levels[OF so s] level_remove_order_miss
            split: if_splits)
      then show ?thesis by (rule c0)
    next
      case True
      show ?thesis
      proof (cases "p = ?p")
        case False
        with hyp Some have "map_of m p = Some l"
          by (simp add: map_of_remove_from_levels[OF so s] split: if_splits)
        then show ?thesis by (rule c0)
      next
        case p: True
        with hyp Some have "\<not> fst (level_remove_order oid (info_size info) l0)"
          and "l = snd (level_remove_order oid (info_size info) l0)"
          by (auto simp: map_of_remove_from_levels[OF so s] split: if_splits)
        with level_remove_order_hit(3)[OF cl0 True] show ?thesis by simp
      qed
    qed
  qed
  then show ?thesis using levels_counted_iff[OF so s'] by blast
qed

lemma remove_from_levels_bounded:
  assumes so: "strict_order cmp" and s: "levels_sorted cmp m" and b: "levels_bounded n m"
  shows "levels_bounded n (remove_from_levels oid info m)"
proof -
  let ?p = "info_price_scaled info"
  have s': "levels_sorted cmp (remove_from_levels oid info m)"
    by (rule remove_from_levels_sorted[OF s])
  have b0: "\<And>p l. map_of m p = Some l \<Longrightarrow> length (order_ids l) \<le> n"
    using b levels_bounded_iff[OF so s] by blast
  have shrink: "length (order_ids (snd (level_remove_order oid sz l))) \<le> length (order_ids l)"
    for sz l
    by (simp add: level_remove_order_def Let_def length_remove1)
  have "length (order_ids l) \<le> n"
    if hyp: "map_of (remove_from_levels oid info m) p = Some l" for p l
  proof (cases "map_of m ?p")
    case None
    with hyp b0 show ?thesis by (simp add: map_of_remove_from_levels[OF so s])
  next
    case (Some l0)
    show ?thesis
    proof (cases "p = ?p")
      case False
      with hyp Some have "map_of m p = Some l"
        by (simp add: map_of_remove_from_levels[OF so s] split: if_splits)
      then show ?thesis by (rule b0)
    next
      case True
      with hyp Some have "l = snd (level_remove_order oid (info_size info) l0)"
        by (auto simp: map_of_remove_from_levels[OF so s] split: if_splits)
      with shrink[of "info_size info" l0] b0[OF Some] show ?thesis by simp
    qed
  qed
  then show ?thesis using levels_bounded_iff[OF so s'] by blast
qed

lemma levels_bounded_mono: "levels_bounded n m \<Longrightarrow> n \<le> n' \<Longrightarrow> levels_bounded n' m"
  by (induction m) (auto simp: levels_bounded_def)

subsection \<open>From the index to the level\<close>

lemma add_to_levels_indexed:
  assumes so: "strict_order cmp" and s: "levels_sorted cmp m" and c: "levels_counted m"
    and f: "indexed_in orders sd m"
    and info: "info_side info = sd" "info_price_scaled info = price_scaled order"
  shows "indexed_in (orders(order_id order \<mapsto> info)) sd (add_to_levels cmp order m)"
  unfolding indexed_in_def
proof (intro allI impI)
  fix oid i
  let ?p = "price_scaled order"
  let ?new = "added_level order (map_of m ?p)"
  assume live: "(orders(order_id order \<mapsto> info)) oid = Some i" and sd: "info_side i = sd"
  have c0: "\<And>p l. map_of m p = Some l \<Longrightarrow> level_counted l"
    using c levels_counted_iff[OF so s] by blast
  have new_ids: "order_id order \<in> set (order_ids ?new)"
    "\<And>l. map_of m ?p = Some l \<Longrightarrow> set (order_ids l) \<subseteq> set (order_ids ?new)"
  proof -
    show "order_id order \<in> set (order_ids ?new)"
      by (cases "map_of m ?p") (auto simp: added_level_None_ids added_level_Some_ids dest: c0)
    show "set (order_ids l) \<subseteq> set (order_ids ?new)" if "map_of m ?p = Some l" for l
      using that c0[OF that] by (auto simp: added_level_Some_ids)
  qed
  show "\<exists>l. map_of (add_to_levels cmp order m) (info_price_scaled i) = Some l \<and>
            oid \<in> set (order_ids l)"
  proof (cases "oid = order_id order")
    case True
    with live have "i = info" by simp
    with info True new_ids(1) show ?thesis by (simp add: map_of_add_to_levels[OF so s])
  next
    case False
    with live have "orders oid = Some i" by simp
    with f sd obtain l where l: "map_of m (info_price_scaled i) = Some l" "oid \<in> set (order_ids l)"
      unfolding indexed_in_def by blast
    show ?thesis
    proof (cases "info_price_scaled i = ?p")
      case True
      with l new_ids(2)[of l] show ?thesis by (auto simp: map_of_add_to_levels[OF so s])
    next
      case False
      with l show ?thesis by (simp add: map_of_add_to_levels[OF so s])
    qed
  qed
qed

lemma other_side_add_indexed:
  "indexed_in orders sd m \<Longrightarrow> info_side info \<noteq> sd \<Longrightarrow>
   indexed_in (orders(oid \<mapsto> info)) sd m"
  by (auto simp: indexed_in_def)

lemma erase_indexed:
  "indexed_in orders sd m \<Longrightarrow> indexed_in (orders(oid := None)) sd m"
  by (auto simp: indexed_in_def)

lemma remove_from_levels_indexed:
  assumes so: "strict_order cmp" and s: "levels_sorted cmp m" and c: "levels_counted m"
    and f: "indexed_in orders sd m"
  shows "indexed_in (orders(oid := None)) sd (remove_from_levels oid info m)"
  unfolding indexed_in_def
proof (intro allI impI)
  fix oid' i
  let ?p = "info_price_scaled info"
  assume live: "(orders(oid := None)) oid' = Some i" and sd: "info_side i = sd"
  then have neq: "oid' \<noteq> oid" and "orders oid' = Some i" by (auto split: if_splits)
  with f sd obtain l where l: "map_of m (info_price_scaled i) = Some l" "oid' \<in> set (order_ids l)"
    unfolding indexed_in_def by blast
  have c0: "\<And>p l. map_of m p = Some l \<Longrightarrow> level_counted l"
    using c levels_counted_iff[OF so s] by blast
  show "\<exists>l. map_of (remove_from_levels oid info m) (info_price_scaled i) = Some l \<and>
            oid' \<in> set (order_ids l)"
  proof (cases "info_price_scaled i = ?p")
    case False
    with l show ?thesis
      by (auto simp: map_of_remove_from_levels[OF so s] split: option.splits)
  next
    case True
    with l have at: "map_of m ?p = Some l" by simp
    show ?thesis
    proof (cases "oid \<in> set (order_ids l)")
      case False
      with at l True show ?thesis
        by (simp add: map_of_remove_from_levels[OF so s] level_remove_order_miss)
    next
      case hit: True
      note h = level_remove_order_hit[OF c0[OF at] hit, of "info_size info"]
      from l(2) neq have stay: "oid' \<in> set (remove1 oid (order_ids l))" by simp
      then have "remove1 oid (order_ids l) \<noteq> []" by auto
      with h(2) have "\<not> fst (level_remove_order oid (info_size info) l)" by simp
      with at True stay h(1) show ?thesis
        by (simp add: map_of_remove_from_levels[OF so s])
    qed
  qed
qed

subsection \<open>From the level to the index\<close>



lemma other_side_cancel_residents:
  assumes so: "strict_order cmp" and s: "levels_sorted cmp m"
    and r: "residents_indexed orders sd m"
    and live: "orders oid = Some info" and other: "info_side info \<noteq> sd"
  shows "residents_indexed (orders(oid := None)) sd m"
proof -
  have r0: "\<And>p l x. map_of m p = Some l \<Longrightarrow> x \<in> set (order_ids l) \<Longrightarrow>
      \<exists>i. orders x = Some i \<and> info_side i = sd \<and> info_price_scaled i = p"
    using r residents_indexed_iff[OF so s] by blast
  have "\<exists>i. (orders(oid := None)) x = Some i \<and> info_side i = sd \<and> info_price_scaled i = p"
    if "map_of m p = Some l" "x \<in> set (order_ids l)" for p l x
    using r0[OF that] live other by (cases "x = oid") auto
  then show ?thesis using residents_indexed_iff[OF so s] by blast
qed

lemma remove_from_levels_residents:
  assumes so: "strict_order cmp" and s: "levels_sorted cmp m" and c: "levels_counted m"
    and r: "residents_indexed orders sd m" and d: "levels_ids_distinct m"
    and live: "orders oid = Some info" and sd: "info_side info = sd"
  shows "residents_indexed (orders(oid := None)) sd (remove_from_levels oid info m) \<and>
         levels_ids_distinct (remove_from_levels oid info m)"
proof -
  let ?p = "info_price_scaled info"
  let ?m' = "remove_from_levels oid info m"
  have s': "levels_sorted cmp ?m'" by (rule remove_from_levels_sorted[OF s])
  have r0: "\<And>p l x. map_of m p = Some l \<Longrightarrow> x \<in> set (order_ids l) \<Longrightarrow>
      \<exists>i. orders x = Some i \<and> info_side i = sd \<and> info_price_scaled i = p"
    using r residents_indexed_iff[OF so s] by blast
  have d0: "\<And>p l. map_of m p = Some l \<Longrightarrow> distinct (order_ids l)"
    using d levels_ids_distinct_iff[OF so s] by blast
  have c0: "\<And>p l. map_of m p = Some l \<Longrightarrow> level_counted l"
    using c levels_counted_iff[OF so s] by blast
  have sub: "\<exists>l0. map_of m p = Some l0 \<and> set (order_ids l) \<subseteq> set (order_ids l0) \<and>
        (distinct (order_ids l0) \<longrightarrow> distinct (order_ids l)) \<and>
        (p = ?p \<and> distinct (order_ids l0) \<longrightarrow> oid \<notin> set (order_ids l))"
    if at: "map_of ?m' p = Some l" for p l
  proof (cases "map_of m ?p")
    case None
    with at have keep: "map_of m p = Some l" by (simp add: map_of_remove_from_levels[OF so s])
    with None have "p \<noteq> ?p" by auto
    with keep show ?thesis by auto
  next
    case (Some l1)
    show ?thesis
    proof (cases "p = ?p")
      case False
      with at Some have "map_of m p = Some l"
        by (simp add: map_of_remove_from_levels[OF so s] split: if_splits)
      with False show ?thesis by auto
    next
      case True
      with at Some have l: "l = snd (level_remove_order oid (info_size info) l1)"
        by (auto simp: map_of_remove_from_levels[OF so s] split: if_splits)
      have "set (order_ids l) \<subseteq> set (order_ids l1)"
        "distinct (order_ids l1) \<Longrightarrow> distinct (order_ids l)"
        "distinct (order_ids l1) \<Longrightarrow> oid \<notin> set (order_ids l)"
        unfolding l using set_remove1_subset[of oid "order_ids l1"]
        by (auto simp: level_remove_order_def Let_def split: if_splits)
      with Some True show ?thesis by auto
    qed
  qed
  have res: "\<exists>i. (orders(oid := None)) x = Some i \<and> info_side i = sd \<and> info_price_scaled i = p"
    if at: "map_of ?m' p = Some l" and x: "x \<in> set (order_ids l)" for p l x
  proof -
    from sub[OF at] obtain l0 where l0: "map_of m p = Some l0"
      "set (order_ids l) \<subseteq> set (order_ids l0)"
      "p = ?p \<and> distinct (order_ids l0) \<longrightarrow> oid \<notin> set (order_ids l)" by blast
    with x have "x \<in> set (order_ids l0)" by auto
    from r0[OF l0(1) this] obtain i where i: "orders x = Some i" "info_side i = sd"
      "info_price_scaled i = p" by blast
    have "x \<noteq> oid"
    proof
      assume "x = oid"
      with i live have "p = ?p" by simp
      with l0(3) d0[OF l0(1)] x \<open>x = oid\<close> show False by simp
    qed
    with i show ?thesis by simp
  qed
  have dis: "distinct (order_ids l)" if at: "map_of ?m' p = Some l" for p l
    using sub[OF at] d0 by blast
  show ?thesis
    using res dis residents_indexed_iff[OF so s'] levels_ids_distinct_iff[OF so s'] by blast
qed

lemma sides_differ: "SIDE_BID \<noteq> SIDE_ASK"
  by (simp add: SIDE_BID_def SIDE_ASK_def)

lemma index_to_level_iff:
  "index_to_level b \<longleftrightarrow>
     (\<forall>oid info. active_orders b oid = Some info \<longrightarrow>
        info_side info = SIDE_BID \<or> info_side info = SIDE_ASK) \<and>
     indexed_in (active_orders b) SIDE_BID (bid_levels b) \<and>
     indexed_in (active_orders b) SIDE_ASK (ask_levels b)"
  unfolding index_to_level_def indexed_in_def side_levels_def
  using sides_differ by (intro iffI conjI allI impI; fastforce split: if_splits)

lemma empty_book_invariants:
  "book_wf empty_book" "book_exact empty_book" "book_bounded n empty_book"
  by (simp_all add: book_wf_def book_exact_def book_bounded_def empty_book_def
      keys_ordered_def levels_sorted_def book_counted_def levels_counted_def
      index_to_level_def level_to_index_def residents_indexed_def book_ids_distinct_def
      levels_ids_distinct_def levels_bounded_def)

lemma clear_is_empty: "clear b = empty_book"
  by (simp add: clear_def empty_book_def)

subsection \<open>add_order\<close>

lemma add_order_rejected: "\<not> add_accepted ev \<Longrightarrow> add_order b ev = (False, b)"
  by (auto simp: add_order_def add_accepted_def)

lemma add_order_bid:
  "add_accepted ev \<Longrightarrow> side ev = SIDE_BID \<Longrightarrow>
   snd (add_order b ev) =
     b\<lparr>active_orders := (active_orders b)(order_id ev \<mapsto>
          \<lparr>info_side = SIDE_BID, info_price_scaled = price_scaled ev,
           info_size = ucast (order_size ev)\<rparr>),
       bid_levels := add_to_levels bid_comp ev (bid_levels b)\<rparr>"
  by (simp add: add_order_def add_accepted_def is_bid_def SIDE_BID_def Let_def)

lemma add_order_ask:
  "add_accepted ev \<Longrightarrow> side ev = SIDE_ASK \<Longrightarrow>
   snd (add_order b ev) =
     b\<lparr>active_orders := (active_orders b)(order_id ev \<mapsto>
          \<lparr>info_side = SIDE_ASK, info_price_scaled = price_scaled ev,
           info_size = ucast (order_size ev)\<rparr>),
       ask_levels := add_to_levels ask_comp ev (ask_levels b)\<rparr>"
  by (simp add: add_order_def add_accepted_def is_bid_def is_ask_def SIDE_ASK_def Let_def)

lemma add_accepted_side: "add_accepted ev \<Longrightarrow> side ev = SIDE_BID \<or> side ev = SIDE_ASK"
  by (simp add: add_accepted_def is_valid_def SIDE_BID_def SIDE_ASK_def)

lemma add_order_wf:
  assumes wf: "book_wf b" and bd: "book_bounded n b" and n: "Suc n < 2 ^ 32"
  shows "book_wf (snd (add_order b ev)) \<and> book_bounded (Suc n) (snd (add_order b ev))"
proof (cases "add_accepted ev")
  case False
  with wf bd show ?thesis
    by (auto simp: add_order_rejected book_bounded_def intro: levels_bounded_mono)
next
  case True
  from wf have sb: "levels_sorted bid_comp (bid_levels b)"
    and sa: "levels_sorted ask_comp (ask_levels b)"
    and cb: "levels_counted (bid_levels b)" and ca: "levels_counted (ask_levels b)"
    and valid: "\<forall>oid info. active_orders b oid = Some info \<longrightarrow>
        info_side info = SIDE_BID \<or> info_side info = SIDE_ASK"
    and fb: "indexed_in (active_orders b) SIDE_BID (bid_levels b)"
    and fa: "indexed_in (active_orders b) SIDE_ASK (ask_levels b)"
    by (simp_all add: book_wf_def keys_ordered_def book_counted_def index_to_level_iff)
  from bd have bb: "levels_bounded n (bid_levels b)" and ba: "levels_bounded n (ask_levels b)"
    by (simp_all add: book_bounded_def)
  from add_accepted_side[OF True] show ?thesis
  proof
    assume sd: "side ev = SIDE_BID"
    let ?info = "\<lparr>info_side = SIDE_BID, info_price_scaled = price_scaled ev,
           info_size = ucast (order_size ev)\<rparr>"
    note cnt = add_to_levels_counted[OF bid_comp_order sb cb bb n, of ev]
    have "indexed_in ((active_orders b)(order_id ev \<mapsto> ?info)) SIDE_BID
            (add_to_levels bid_comp ev (bid_levels b))"
      by (rule add_to_levels_indexed[OF bid_comp_order sb cb fb]) simp_all
    moreover have "indexed_in ((active_orders b)(order_id ev \<mapsto> ?info)) SIDE_ASK (ask_levels b)"
      by (rule other_side_add_indexed[OF fa]) (simp add: sides_differ)
    ultimately show ?thesis
      using cnt valid sa ca ba add_to_levels_sorted[OF bid_comp_order sb, of ev]
      by (simp add: add_order_bid[OF True sd] book_wf_def keys_ordered_def book_counted_def
          index_to_level_iff book_bounded_def levels_bounded_mono[OF ba])
  next
    assume sd: "side ev = SIDE_ASK"
    let ?info = "\<lparr>info_side = SIDE_ASK, info_price_scaled = price_scaled ev,
           info_size = ucast (order_size ev)\<rparr>"
    note cnt = add_to_levels_counted[OF ask_comp_order sa ca ba n, of ev]
    have "indexed_in ((active_orders b)(order_id ev \<mapsto> ?info)) SIDE_ASK
            (add_to_levels ask_comp ev (ask_levels b))"
      by (rule add_to_levels_indexed[OF ask_comp_order sa ca fa]) simp_all
    moreover have "indexed_in ((active_orders b)(order_id ev \<mapsto> ?info)) SIDE_BID (bid_levels b)"
      by (rule other_side_add_indexed[OF fb]) (simp add: sides_differ[symmetric])
    ultimately show ?thesis
      using cnt valid sb cb bb add_to_levels_sorted[OF ask_comp_order sa, of ev]
      by (simp add: add_order_ask[OF True sd] book_wf_def keys_ordered_def book_counted_def
          index_to_level_iff book_bounded_def levels_bounded_mono[OF bb])
  qed
qed


subsection \<open>cancel_order\<close>

lemma cancel_order_unknown:
  "active_orders b (order_id ev) = None \<Longrightarrow> cancel_order b ev = (False, b)"
  by (simp add: cancel_order_def)

lemma cancel_order_bid:
  "active_orders b (order_id ev) = Some info \<Longrightarrow> info_side info = SIDE_BID \<Longrightarrow>
   snd (cancel_order b ev) =
     b\<lparr>bid_levels := remove_from_levels (order_id ev) info (bid_levels b),
       active_orders := (active_orders b)(order_id ev := None)\<rparr>"
  by (simp add: cancel_order_def Let_def)

lemma cancel_order_ask:
  "active_orders b (order_id ev) = Some info \<Longrightarrow> info_side info = SIDE_ASK \<Longrightarrow>
   snd (cancel_order b ev) =
     b\<lparr>ask_levels := remove_from_levels (order_id ev) info (ask_levels b),
       active_orders := (active_orders b)(order_id ev := None)\<rparr>"
  by (simp add: cancel_order_def Let_def sides_differ[symmetric])

lemma cancel_order_wf:
  assumes wf: "book_wf b"
  shows "book_wf (snd (cancel_order b ev))"
proof (cases "active_orders b (order_id ev)")
  case None
  with wf show ?thesis by (simp add: cancel_order_unknown)
next
  case (Some info)
  from wf have sb: "levels_sorted bid_comp (bid_levels b)"
    and sa: "levels_sorted ask_comp (ask_levels b)"
    and cb: "levels_counted (bid_levels b)" and ca: "levels_counted (ask_levels b)"
    and valid: "\<forall>oid info. active_orders b oid = Some info \<longrightarrow>
        info_side info = SIDE_BID \<or> info_side info = SIDE_ASK"
    and fb: "indexed_in (active_orders b) SIDE_BID (bid_levels b)"
    and fa: "indexed_in (active_orders b) SIDE_ASK (ask_levels b)"
    by (simp_all add: book_wf_def keys_ordered_def book_counted_def index_to_level_iff)
  from valid Some have "info_side info = SIDE_BID \<or> info_side info = SIDE_ASK" by blast
  then show ?thesis
  proof
    assume sd: "info_side info = SIDE_BID"
    show ?thesis
      using valid sa ca
        remove_from_levels_sorted[OF sb, of "order_id ev" info]
        remove_from_levels_counted[OF bid_comp_order sb cb, of "order_id ev" info]
        remove_from_levels_indexed[OF bid_comp_order sb cb fb, of "order_id ev" info]
        erase_indexed[OF fa, of "order_id ev"]
      by (simp add: cancel_order_bid[OF Some sd] book_wf_def keys_ordered_def book_counted_def
          index_to_level_iff)
  next
    assume sd: "info_side info = SIDE_ASK"
    show ?thesis
      using valid sb cb
        remove_from_levels_sorted[OF sa, of "order_id ev" info]
        remove_from_levels_counted[OF ask_comp_order sa ca, of "order_id ev" info]
        remove_from_levels_indexed[OF ask_comp_order sa ca fa, of "order_id ev" info]
        erase_indexed[OF fb, of "order_id ev"]
      by (simp add: cancel_order_ask[OF Some sd] book_wf_def keys_ordered_def book_counted_def
          index_to_level_iff)
  qed
qed

lemma cancel_order_bounded:
  assumes wf: "book_wf b" and bd: "book_bounded n b"
  shows "book_bounded n (snd (cancel_order b ev))"
proof (cases "active_orders b (order_id ev)")
  case None
  with bd show ?thesis by (simp add: cancel_order_unknown)
next
  case (Some info)
  from wf have sb: "levels_sorted bid_comp (bid_levels b)"
    and sa: "levels_sorted ask_comp (ask_levels b)"
    and valid: "\<forall>oid info. active_orders b oid = Some info \<longrightarrow>
        info_side info = SIDE_BID \<or> info_side info = SIDE_ASK"
    by (simp_all add: book_wf_def keys_ordered_def index_to_level_iff)
  from bd have bb: "levels_bounded n (bid_levels b)" and ba: "levels_bounded n (ask_levels b)"
    by (simp_all add: book_bounded_def)
  from valid Some have "info_side info = SIDE_BID \<or> info_side info = SIDE_ASK" by blast
  then show ?thesis
  proof
    assume sd: "info_side info = SIDE_BID"
    show ?thesis
      using ba remove_from_levels_bounded[OF bid_comp_order sb bb, of "order_id ev" info]
      by (simp add: cancel_order_bid[OF Some sd] book_bounded_def)
  next
    assume sd: "info_side info = SIDE_ASK"
    show ?thesis
      using bb remove_from_levels_bounded[OF ask_comp_order sa ba, of "order_id ev" info]
      by (simp add: cancel_order_ask[OF Some sd] book_bounded_def)
  qed
qed

lemma cancel_order_exact:
  assumes wf: "book_wf b" and ex: "book_exact b"
  shows "book_exact (snd (cancel_order b ev))"
proof (cases "active_orders b (order_id ev)")
  case None
  with ex show ?thesis by (simp add: cancel_order_unknown)
next
  case (Some info)
  from wf have sb: "levels_sorted bid_comp (bid_levels b)"
    and sa: "levels_sorted ask_comp (ask_levels b)"
    and cb: "levels_counted (bid_levels b)" and ca: "levels_counted (ask_levels b)"
    and valid: "\<forall>oid info. active_orders b oid = Some info \<longrightarrow>
        info_side info = SIDE_BID \<or> info_side info = SIDE_ASK"
    by (simp_all add: book_wf_def keys_ordered_def book_counted_def index_to_level_iff)
  from ex have rb: "residents_indexed (active_orders b) SIDE_BID (bid_levels b)"
    and ra: "residents_indexed (active_orders b) SIDE_ASK (ask_levels b)"
    and db: "levels_ids_distinct (bid_levels b)" and da: "levels_ids_distinct (ask_levels b)"
    by (simp_all add: book_exact_def level_to_index_def book_ids_distinct_def)
  from valid Some have "info_side info = SIDE_BID \<or> info_side info = SIDE_ASK" by blast
  then show ?thesis
  proof
    assume sd: "info_side info = SIDE_BID"
    then have other: "info_side info \<noteq> SIDE_ASK" by (simp add: sides_differ)
    show ?thesis
      using da remove_from_levels_residents[OF bid_comp_order sb cb rb db Some sd]
        other_side_cancel_residents[OF ask_comp_order sa ra Some other]
      by (simp add: cancel_order_bid[OF Some sd] book_exact_def level_to_index_def
          book_ids_distinct_def)
  next
    assume sd: "info_side info = SIDE_ASK"
    then have other: "info_side info \<noteq> SIDE_BID" by (simp add: sides_differ[symmetric])
    show ?thesis
      using db remove_from_levels_residents[OF ask_comp_order sa ca ra da Some sd]
        other_side_cancel_residents[OF bid_comp_order sb rb Some other]
      by (simp add: cancel_order_ask[OF Some sd] book_exact_def level_to_index_def
          book_ids_distinct_def)
  qed
qed

subsection \<open>process_order and the loop\<close>

lemma process_order_book:
  "fst (process_order b ev) =
     (if action ev = ACTION_CLEAR then empty_book
      else if action ev = ACTION_ADD then snd (add_order b ev)
      else if action ev = ACTION_CANCEL then snd (cancel_order b ev)
      else b)"
  by (simp add: process_order_def clear_is_empty split: prod.splits)

lemma engine_step_book:
  "order_book (fst (engine_step e x)) =
     (if \<not> first_clear_ignored e \<and> action x = ACTION_CLEAR then order_book e
      else fst (process_order (order_book e) x))"
  by (simp add: engine_step_def split: prod.splits)

lemma process_order_wf:
  assumes "book_wf b" "book_bounded n b" "Suc n < 2 ^ 32"
  shows "book_wf (fst (process_order b ev)) \<and> book_bounded (Suc n) (fst (process_order b ev))"
proof -
  have keep: "book_bounded (Suc n) b"
    using assms(2) by (auto simp: book_bounded_def intro: levels_bounded_mono)
  have canc: "book_bounded (Suc n) (snd (cancel_order b ev))"
    using cancel_order_bounded[OF assms(1) keep] .
  show ?thesis
    using add_order_wf[OF assms, of ev] cancel_order_wf[OF assms(1), of ev] canc keep assms(1)
      empty_book_invariants(1) empty_book_invariants(3)[of "Suc n"]
    by (simp add: process_order_book)
qed

lemma engine_step_wf:
  assumes "book_wf (order_book e)" "book_bounded n (order_book e)" "Suc n < 2 ^ 32"
  shows "book_wf (order_book (fst (engine_step e x))) \<and>
         book_bounded (Suc n) (order_book (fst (engine_step e x)))"
proof -
  have keep: "book_bounded (Suc n) (order_book e)"
    using assms(2) by (auto simp: book_bounded_def intro: levels_bounded_mono)
  show ?thesis
    using process_order_wf[OF assms, of x] keep assms(1) by (simp add: engine_step_book)
qed

lemma engine_run_wf:
  "book_wf (order_book e) \<Longrightarrow> book_bounded n (order_book e) \<Longrightarrow> n + length xs < 2 ^ 32 \<Longrightarrow>
   book_wf (order_book (engine_run e xs)) \<and>
   book_bounded (n + length xs) (order_book (engine_run e xs))"
proof (induction xs arbitrary: e n)
  case Nil
  then show ?case by simp
next
  case (Cons x xs)
  from Cons.prems(3) have n: "Suc n < 2 ^ 32" and rest: "Suc n + length xs < 2 ^ 32" by simp_all
  note st = engine_step_wf[OF Cons.prems(1,2) n, of x]
  from Cons.IH[OF st[THEN conjunct1] st[THEN conjunct2] rest] show ?case by simp
qed



subsection \<open>Add then cancel on one side\<close>

lemma remove_after_add:
  assumes so: "strict_order cmp" and s: "levels_sorted cmp m" and c: "levels_counted m"
    and absent: "\<And>l. map_of m (price_scaled a) = Some l \<Longrightarrow> order_id a \<notin> set (order_ids l)"
    and info: "info_price_scaled info = price_scaled a" "info_size info = ucast (order_size a)"
  shows "remove_from_levels (order_id a) info (add_to_levels cmp a m) = m"
proof (cases "map_of m (price_scaled a)")
  case None
  let ?new = "added_level a None"
  have at: "map_of (add_to_levels cmp a m) (price_scaled a) = Some ?new"
    by (simp add: map_of_add_to_levels[OF so s] None)
  have "fst (level_remove_order (order_id a) (info_size info) ?new)"
    by (simp add: level_remove_order_def added_level_def PriceLevel_new_def)
  then obtain l' where rm: "level_remove_order (order_id a) (info_size info) ?new = (True, l')"
    by (cases "level_remove_order (order_id a) (info_size info) ?new") auto
  show ?thesis
    using at rm
    by (simp add: remove_from_levels_def info(1) add_to_levels_absent[OF None]
        erase_assign_subscript[OF None])
next
  case (Some l)
  have cl: "level_counted l"
    using c levels_counted_iff[OF so s] Some by blast
  then have nz: "order_count l \<noteq> 0" by (rule level_counted_nonzero)
  let ?new = "added_level a (Some l)"
  have new: "?new = level_add_order (order_id a) (ucast (order_size a)) l"
    using nz by (simp add: added_level_def)
  have at: "map_of (add_to_levels cmp a m) (price_scaled a) = Some ?new"
    by (simp add: map_of_add_to_levels[OF so s] Some)
  have rm: "level_remove_order (order_id a) (info_size info) ?new = (False, l)"
    using nz absent[OF Some]
    by (simp add: new level_remove_order_def level_add_order_def info(2) remove1_append)
  show ?thesis
    using at rm Some
    by (simp add: remove_from_levels_def info(1) add_to_levels_present[OF so s Some]
        map_assign_twice map_assign_same)
qed

lemma S5_book_wf: "book_wf S5_book"
  unfolding S5_book_def
  using add_order_wf[OF empty_book_invariants(1) empty_book_invariants(3)[of 0], of S5_add]
  by simp

lemma S5_book_exact: "book_exact S5_book"
  by (simp add: S5_book_eval invariant_defs SIDE_BID_def SIDE_ASK_def)

lemma reachable_book_wf:
  assumes "length evs < 2 ^ 32"
  shows "book_wf (order_book (engine_run new_engine evs))"
proof -
  have e: "order_book new_engine = empty_book" by (simp add: new_engine_def)
  have wf0: "book_wf (order_book new_engine)"
    and bd0: "book_bounded 0 (order_book new_engine)"
    unfolding e by (rule empty_book_invariants)+
  from assms have len: "0 + length evs < 2 ^ 32" by simp
  show ?thesis using engine_run_wf[OF wf0 bd0 len] by simp
qed


lemma cancel_order_index:
  "active_orders (snd (cancel_order b ev)) = (active_orders b)(order_id ev := None)"
  by (auto simp: cancel_order_def Let_def fun_eq_iff split: option.splits)

lemma not_resident:
  "residents_indexed orders sd m \<Longrightarrow> orders oid = None \<Longrightarrow>
   list_all (\<lambda>(p, l). oid \<notin> set (order_ids l)) m"
  by (fastforce simp: residents_indexed_def list_all_iff)


subsection \<open>Total sizes\<close>

lemma levels_totalled_iff:
  "strict_order cmp \<Longrightarrow> levels_sorted cmp m \<Longrightarrow>
   levels_totalled orders m \<longleftrightarrow>
     (\<forall>p l. map_of m p = Some l \<longrightarrow>
        total_size l = sum_list (map (stored_size orders) (order_ids l)))"
  unfolding levels_totalled_def
  by (rule list_all_map_of) (rule levels_sorted_distinct)

lemma stored_size_other:
  "oid \<notin> set ids \<Longrightarrow>
   sum_list (map (stored_size (orders(oid := v))) ids) = sum_list (map (stored_size orders) ids)"
  by (induction ids) (auto simp: stored_size_def)

lemma sum_remove1:
  fixes f :: "u64 \<Rightarrow> u64"
  shows "x \<in> set xs \<Longrightarrow> sum_list (map f (remove1 x xs)) = sum_list (map f xs) - f x"
  by (induction xs) auto

lemma unindexed_not_resident:
  assumes so: "strict_order cmp" and s: "levels_sorted cmp m"
    and r: "residents_indexed orders sd m" and at: "map_of m p = Some l"
    and no: "\<And>i. orders oid = Some i \<Longrightarrow> info_side i \<noteq> sd \<or> info_price_scaled i \<noteq> p"
  shows "oid \<notin> set (order_ids l)"
proof
  assume "oid \<in> set (order_ids l)"
  with r at residents_indexed_iff[OF so s] obtain i where
    "orders oid = Some i" "info_side i = sd" "info_price_scaled i = p" by blast
  with no show False by blast
qed

lemma other_side_totalled:
  assumes so: "strict_order cmp" and s: "levels_sorted cmp m"
    and r: "residents_indexed orders sd m" and t: "levels_totalled orders m"
    and no: "\<And>i. orders oid = Some i \<Longrightarrow> info_side i \<noteq> sd"
  shows "levels_totalled (orders(oid := v)) m"
proof -
  have "total_size l = sum_list (map (stored_size (orders(oid := v))) (order_ids l))"
    if at: "map_of m p = Some l" for p l
  proof -
    have "oid \<notin> set (order_ids l)"
      by (rule unindexed_not_resident[OF so s r at]) (use no in blast)
    with t at levels_totalled_iff[OF so s] show ?thesis by (simp add: stored_size_other)
  qed
  then show ?thesis using levels_totalled_iff[OF so s] by blast
qed

lemma add_to_levels_totalled:
  assumes so: "strict_order cmp" and s: "levels_sorted cmp m"
    and r: "residents_indexed orders sd m" and t: "levels_totalled orders m"
    and fresh: "orders (order_id order) = None"
    and info: "info_size info = ucast (order_size order)"
  shows "levels_totalled (orders(order_id order \<mapsto> info)) (add_to_levels cmp order m)"
proof -
  let ?p = "price_scaled order"
  let ?oid = "order_id order"
  let ?orders = "orders(?oid \<mapsto> info)"
  have s': "levels_sorted cmp (add_to_levels cmp order m)"
    by (rule add_to_levels_sorted[OF so s])
  have t0: "\<And>p l. map_of m p = Some l \<Longrightarrow>
      total_size l = sum_list (map (stored_size orders) (order_ids l))"
    using t levels_totalled_iff[OF so s] by blast
  have nr: "?oid \<notin> set (order_ids l)" if "map_of m p = Some l" for p l
    by (rule unindexed_not_resident[OF so s r that]) (simp add: fresh)
  have keep: "total_size l = sum_list (map (stored_size ?orders) (order_ids l))"
    if "map_of m p = Some l" for p l
    using t0[OF that] nr[OF that] by (simp add: stored_size_other)
  have own: "stored_size ?orders ?oid = ucast (order_size order)"
    by (simp add: stored_size_def info)
  have new: "total_size (added_level order (map_of m ?p)) =
      sum_list (map (stored_size ?orders) (order_ids (added_level order (map_of m ?p))))"
  proof (cases "map_of m ?p")
    case None
    then show ?thesis using own by (simp add: added_level_def PriceLevel_new_def)
  next
    case (Some l)
    then show ?thesis
      using own keep[OF Some]
      by (simp add: added_level_def PriceLevel_new_def level_add_order_def)
  qed
  have "total_size l = sum_list (map (stored_size ?orders) (order_ids l))"
    if at: "map_of (add_to_levels cmp order m) p = Some l" for p l
  proof (cases "p = ?p")
    case True
    with at new show ?thesis by (simp add: map_of_add_to_levels[OF so s])
  next
    case False
    with at have "map_of m p = Some l" by (simp add: map_of_add_to_levels[OF so s])
    then show ?thesis by (rule keep)
  qed
  then show ?thesis using levels_totalled_iff[OF so s'] by blast
qed

lemma remove_from_levels_totalled:
  assumes so: "strict_order cmp" and s: "levels_sorted cmp m"
    and r: "residents_indexed orders sd m" and d: "levels_ids_distinct m"
    and t: "levels_totalled orders m"
    and live: "orders oid = Some info" and sd: "info_side info = sd"
  shows "levels_totalled (orders(oid := None)) (remove_from_levels oid info m)"
proof -
  let ?p = "info_price_scaled info"
  let ?m' = "remove_from_levels oid info m"
  let ?orders = "orders(oid := None)"
  have s': "levels_sorted cmp ?m'" by (rule remove_from_levels_sorted[OF s])
  have t0: "\<And>p l. map_of m p = Some l \<Longrightarrow>
      total_size l = sum_list (map (stored_size orders) (order_ids l))"
    using t levels_totalled_iff[OF so s] by blast
  have d0: "\<And>p l. map_of m p = Some l \<Longrightarrow> distinct (order_ids l)"
    using d levels_ids_distinct_iff[OF so s] by blast
  have elsewhere: "oid \<notin> set (order_ids l)" if "map_of m p = Some l" "p \<noteq> ?p" for p l
    by (rule unindexed_not_resident[OF so s r that(1)]) (use live that(2) in auto)
  have keep: "total_size l = sum_list (map (stored_size ?orders) (order_ids l))"
    if "map_of m p = Some l" "oid \<notin> set (order_ids l)" for p l
    using t0[OF that(1)] that(2) by (simp add: stored_size_other)
  have "total_size l = sum_list (map (stored_size ?orders) (order_ids l))"
    if at: "map_of ?m' p = Some l" for p l
  proof (cases "map_of m ?p")
    case None
    with at have old: "map_of m p = Some l" by (simp add: map_of_remove_from_levels[OF so s])
    with None have "p \<noteq> ?p" by auto
    from keep[OF old elsewhere[OF old this]] show ?thesis .
  next
    case (Some l1)
    show ?thesis
    proof (cases "p = ?p")
      case False
      with at Some have old: "map_of m p = Some l"
        by (simp add: map_of_remove_from_levels[OF so s] split: if_splits)
      from keep[OF old elsewhere[OF old False]] show ?thesis .
    next
      case True
      with at Some have l: "l = snd (level_remove_order oid (info_size info) l1)"
        by (auto simp: map_of_remove_from_levels[OF so s] split: if_splits)
      show ?thesis
      proof (cases "oid \<in> set (order_ids l1)")
        case False
        then have "l = l1" by (simp add: l level_remove_order_miss)
        with keep[OF Some False] show ?thesis by simp
      next
        case hit: True
        have ids: "order_ids l = remove1 oid (order_ids l1)"
          and tot: "total_size l = total_size l1 - info_size info"
          using hit by (simp_all add: l level_remove_order_def Let_def)
        have gone: "oid \<notin> set (remove1 oid (order_ids l1))"
          using d0[OF Some] by simp
        have "sum_list (map (stored_size ?orders) (remove1 oid (order_ids l1))) =
            sum_list (map (stored_size orders) (remove1 oid (order_ids l1)))"
          using gone by (rule stored_size_other)
        also have "\<dots> = sum_list (map (stored_size orders) (order_ids l1)) - stored_size orders oid"
          using hit by (rule sum_remove1)
        also have "\<dots> = total_size l1 - info_size info"
          using t0[OF Some] live by (simp add: stored_size_def)
        finally show ?thesis using ids tot by simp
      qed
    qed
  qed
  then show ?thesis using levels_totalled_iff[OF so s'] by blast
qed

lemma empty_book_totalled: "book_totalled empty_book"
  by (simp add: book_totalled_def levels_totalled_def empty_book_def)

lemma add_order_totalled:
  assumes wf: "book_wf b" and ex: "book_exact b" and t: "book_totalled b"
    and fresh: "add_accepted ev \<Longrightarrow> active_orders b (order_id ev) = None"
  shows "book_totalled (snd (add_order b ev))"
proof (cases "add_accepted ev")
  case False
  with t show ?thesis by (simp add: add_order_rejected)
next
  case True
  note fr = fresh[OF True]
  from wf have sb: "levels_sorted bid_comp (bid_levels b)"
    and sa: "levels_sorted ask_comp (ask_levels b)"
    by (simp_all add: book_wf_def keys_ordered_def)
  from ex have rb: "residents_indexed (active_orders b) SIDE_BID (bid_levels b)"
    and ra: "residents_indexed (active_orders b) SIDE_ASK (ask_levels b)"
    by (simp_all add: book_exact_def level_to_index_def)
  from t have tb: "levels_totalled (active_orders b) (bid_levels b)"
    and ta: "levels_totalled (active_orders b) (ask_levels b)"
    by (simp_all add: book_totalled_def)
  from add_accepted_side[OF True] show ?thesis
  proof
    assume sd: "side ev = SIDE_BID"
    have "levels_totalled ((active_orders b)(order_id ev \<mapsto> info)) (ask_levels b)" for info
      by (rule other_side_totalled[OF ask_comp_order sa ra ta]) (simp add: fr)
    then show ?thesis
      using add_to_levels_totalled[OF bid_comp_order sb rb tb fr]
      by (simp add: add_order_bid[OF True sd] book_totalled_def)
  next
    assume sd: "side ev = SIDE_ASK"
    have "levels_totalled ((active_orders b)(order_id ev \<mapsto> info)) (bid_levels b)" for info
      by (rule other_side_totalled[OF bid_comp_order sb rb tb]) (simp add: fr)
    then show ?thesis
      using add_to_levels_totalled[OF ask_comp_order sa ra ta fr]
      by (simp add: add_order_ask[OF True sd] book_totalled_def)
  qed
qed

lemma cancel_order_totalled:
  assumes wf: "book_wf b" and ex: "book_exact b" and t: "book_totalled b"
  shows "book_totalled (snd (cancel_order b ev))"
proof (cases "active_orders b (order_id ev)")
  case None
  with t show ?thesis by (simp add: cancel_order_unknown)
next
  case (Some info)
  from wf have sb: "levels_sorted bid_comp (bid_levels b)"
    and sa: "levels_sorted ask_comp (ask_levels b)"
    and valid: "\<forall>oid info. active_orders b oid = Some info \<longrightarrow>
        info_side info = SIDE_BID \<or> info_side info = SIDE_ASK"
    by (simp_all add: book_wf_def keys_ordered_def index_to_level_iff)
  from ex have rb: "residents_indexed (active_orders b) SIDE_BID (bid_levels b)"
    and ra: "residents_indexed (active_orders b) SIDE_ASK (ask_levels b)"
    and db: "levels_ids_distinct (bid_levels b)" and da: "levels_ids_distinct (ask_levels b)"
    by (simp_all add: book_exact_def level_to_index_def book_ids_distinct_def)
  from t have tb: "levels_totalled (active_orders b) (bid_levels b)"
    and ta: "levels_totalled (active_orders b) (ask_levels b)"
    by (simp_all add: book_totalled_def)
  from valid Some have "info_side info = SIDE_BID \<or> info_side info = SIDE_ASK" by blast
  then show ?thesis
  proof
    assume sd: "info_side info = SIDE_BID"
    have "levels_totalled ((active_orders b)(order_id ev := None)) (ask_levels b)"
      by (rule other_side_totalled[OF ask_comp_order sa ra ta])
        (use Some sd sides_differ in auto)
    then show ?thesis
      using remove_from_levels_totalled[OF bid_comp_order sb rb db tb Some sd]
      by (simp add: cancel_order_bid[OF Some sd] book_totalled_def)
  next
    assume sd: "info_side info = SIDE_ASK"
    have "levels_totalled ((active_orders b)(order_id ev := None)) (bid_levels b)"
      by (rule other_side_totalled[OF bid_comp_order sb rb tb])
        (use Some sd sides_differ in auto)
    then show ?thesis
      using remove_from_levels_totalled[OF ask_comp_order sa ra da ta Some sd]
      by (simp add: cancel_order_ask[OF Some sd] book_totalled_def)
  qed
qed

subsection \<open>The 32-bit order count\<close>

text \<open>
  \<^verbatim>\<open>order_count\<close> is a \<^verbatim>\<open>uint32_t\<close>. After \<open>2\<^sup>3\<^sup>2\<close> Adds at one price it is zero
  again, and the next Add at that price takes the level for a new one and overwrites it:
  the ids resident before are still live in the index but in no level. The bound on the
  number of events in the invariant of the index is therefore needed.
\<close>

lemma wrap_adds_Suc: "wrap_adds (Suc n) = wrap_adds n @ [wrap_add (Suc n)]"
  by (simp add: wrap_adds_def)

lemma wrap_add_fields:
  "action (wrap_add i) = ACTION_ADD" "add_accepted (wrap_add i)"
  "side (wrap_add i) = SIDE_BID" "price_scaled (wrap_add i) = 100000000000"
  "order_id (wrap_add i) = of_nat i" "order_size (wrap_add i) = 1"
  by (simp_all add: wrap_add_def event_def Order_new_def ACTION_ADD_def add_accepted_def
      is_valid_def SIDE_BID_def)

lemma wrap_id_not_first:
  assumes "1 \<le> n" "n \<le> 2 ^ 32"
  shows "(of_nat (Suc n) :: u64) \<noteq> 1"
proof
  assume eq: "(of_nat (Suc n) :: u64) = 1"
  have "Suc n < 2 ^ LENGTH(64)" using assms(2) by simp
  from of_nat_inverse[OF eq this] assms(1) show False by simp
qed

lemma wrap_count_nonzero:
  assumes "1 \<le> n" "n < 2 ^ 32"
  shows "(of_nat n :: u32) \<noteq> 0"
proof
  assume eq: "(of_nat n :: u32) = 0"
  have "n < 2 ^ LENGTH(32)" using assms(2) by simp
  from of_nat_inverse[OF eq this] assms(1) show False by simp
qed

lemma wrap_step:
  assumes flag: "\<not> first_clear_ignored e"
    and bids: "bid_levels (order_book e) = [(100000000000, l)]"
    and first: "active_orders (order_book e) 1 = Some wrap_info"
    and i: "(of_nat i :: u64) \<noteq> 1"
  shows "\<not> first_clear_ignored (fst (engine_step e (wrap_add i))) \<and>
     bid_levels (order_book (fst (engine_step e (wrap_add i)))) =
       [(100000000000, added_level (wrap_add i) (Some l))] \<and>
     active_orders (order_book (fst (engine_step e (wrap_add i)))) 1 = Some wrap_info"
proof -
  have book: "order_book (fst (engine_step e (wrap_add i))) =
      snd (add_order (order_book e) (wrap_add i))"
    by (simp add: engine_step_book process_order_book wrap_add_fields ACTION_ADD_def
        ACTION_CLEAR_def)
  have lv: "add_to_levels bid_comp (wrap_add i) [(100000000000, l)] =
      [(100000000000, added_level (wrap_add i) (Some l))]"
    by (simp add: add_to_levels_def added_level_def wrap_add_fields)
  show ?thesis
    using flag bids first i lv
    by (simp add: book add_order_bid[OF wrap_add_fields(2,3)] wrap_add_fields
        engine_step_flag_no_clear ACTION_ADD_def ACTION_CLEAR_def)
qed

lemma wrap_run:
  "1 \<le> n \<Longrightarrow> n \<le> 2 ^ 32 \<Longrightarrow>
   \<not> first_clear_ignored (engine_run new_engine (wrap_adds n)) \<and>
   (\<exists>l. bid_levels (order_book (engine_run new_engine (wrap_adds n))) = [(100000000000, l)] \<and>
        order_count l = of_nat n) \<and>
   active_orders (order_book (engine_run new_engine (wrap_adds n))) 1 = Some wrap_info"
proof (induction n)
  case 0
  then show ?case by simp
next
  case (Suc n)
  show ?case
  proof (cases "n = 0")
    case True
    then show ?thesis
      by (simp add: wrap_adds_def wrap_add_def wrap_info_def model_defs fixture_defs)
  next
    case False
    with Suc.prems have n: "1 \<le> n" "n \<le> 2 ^ 32" "n < 2 ^ 32" by simp_all
    let ?e = "engine_run new_engine (wrap_adds n)"
    from Suc.IH[OF n(1,2)] obtain l where
      flag: "\<not> first_clear_ignored ?e"
      and bids: "bid_levels (order_book ?e) = [(100000000000, l)]"
      and cnt: "order_count l = of_nat n"
      and first: "active_orders (order_book ?e) 1 = Some wrap_info" by blast
    have nz: "order_count l \<noteq> 0" using cnt wrap_count_nonzero[OF n(1,3)] by simp
    have "order_count (added_level (wrap_add (Suc n)) (Some l)) = of_nat (Suc n)"
      using nz cnt by (simp add: added_level_def level_add_order_def)
    with wrap_step[OF flag bids first wrap_id_not_first[OF n(1,2)]]
    show ?thesis by (simp add: wrap_adds_Suc engine_run_append)
  qed
qed

lemma count_wraps_breaks_index:
  "\<not> index_to_level (order_book (engine_run new_engine (wrap_adds (2 ^ 32 + 1))))"
proof -
  let ?n = "2 ^ 32 :: nat"
  let ?e = "engine_run new_engine (wrap_adds ?n)"
  let ?e' = "fst (engine_step ?e (wrap_add (Suc ?n)))"
  from wrap_run[of ?n] obtain l where
    flag: "\<not> first_clear_ignored ?e"
    and bids: "bid_levels (order_book ?e) = [(100000000000, l)]"
    and cnt: "order_count l = of_nat ?n"
    and first: "active_orders (order_book ?e) 1 = Some wrap_info" by auto
  have zero: "order_count l = 0" using cnt by simp
  have id: "(of_nat (Suc ?n) :: u64) \<noteq> 1" by (rule wrap_id_not_first) simp_all
  have new: "added_level (wrap_add i) (Some l) = PriceLevel_new 100000000000 1 (of_nat i)" for i
    using zero by (simp add: added_level_def wrap_add_fields)
  note st = wrap_step[OF flag bids first id]
  have bids': "bid_levels (order_book ?e') =
      [(100000000000, PriceLevel_new 100000000000 1 (of_nat (Suc ?n)))]"
    using st[THEN conjunct2, THEN conjunct1] unfolding new .
  have first': "active_orders (order_book ?e') 1 = Some wrap_info"
    using st[THEN conjunct2, THEN conjunct2] .
  have "\<not> index_to_level (order_book ?e')"
  proof
    assume "index_to_level (order_book ?e')"
    with first' obtain l' where
      "map_of (side_levels (order_book ?e') (info_side wrap_info))
         (info_price_scaled wrap_info) = Some l'" "1 \<in> set (order_ids l')"
      unfolding index_to_level_def by blast
    with bids' id show False
      by (auto simp: side_levels_def wrap_info_def SIDE_BID_def PriceLevel_new_def)
  qed
  moreover have "engine_run new_engine (wrap_adds (2 ^ 32 + 1)) = ?e'"
    using wrap_adds_Suc[of ?n] by (simp add: engine_run_append)
  ultimately show ?thesis by simp
qed

subsection \<open>The representation of a level\<close>







subsection \<open>erase and assignment on a map with distinct keys\<close>




subsection \<open>The representation invariant along a run\<close>









section \<open>The claims\<close>

text \<open>
  C1. The specification expects, for Add(id=7, Bid, 100, 3) followed by
  Trade(Ask, 100, 3) on a fresh engine, a Trade snapshot with side \<open>A\<close> and depth 0, the
  depth being looked up on the effective (Bid) side. The code emits the Trade snapshot
  (the top-10 test of \<^const>\<open>process_trade\<close> does use the effective side) with side \<open>A\<close>, but
  \<^const>\<open>generate_mbp_snapshot\<close> looks the depth up on the declared side, where the price has
  no level: the depth written is \<open>-1\<close>, although on the Bid side the price is at depth 0.
\<close>

theorem S5_trade_snapshot_depth:
  "\<exists>e w. process_orders new_engine new_writer [S5_add, S5_trade] = Inr (e, w) \<and>
     map (\<lambda>(i, r). (i, row_action r, row_side r, depth r)) (rows_out w) =
       [(0, CHR ''A'', CHR ''B'', 0), (1, CHR ''T'', CHR ''A'', - 1)] \<and>
     effective_side (order_book e) S5_trade = SIDE_BID \<and>
     get_price_depth (order_book e) SIDE_BID (price_scaled S5_trade) = 0"
  by (simp add: model_defs fixture_defs upt_rec)

theorem S5_trade_snapshot_depth_witness:
  "\<exists>e w. process_orders new_engine new_writer [S5_add, S5_trade] = Inr (e, w) \<and>
     map (\<lambda>(i, r). depth r) (rows_out w) = [0, - 1]"
  using S5_trade_snapshot_depth by auto

text \<open>
  C2. For every book and every Trade event: a Neutral declared side makes the trade
  return false; a declared Ask with no ask level at the price, or one whose count is
  zero, has effective side Bid, and symmetrically for Bid; otherwise the effective side
  is the declared one; and the trade returns true exactly when the effective side holds
  the price within its top ten levels.
\<close>

theorem trade_effective_side:
  "(side ev = SIDE_NEUTRAL \<longrightarrow> process_trade b ev = False) \<and>
   (side ev = SIDE_ASK \<and>
      (map_of (ask_levels b) (price_scaled ev) = None \<or>
       (\<exists>l. map_of (ask_levels b) (price_scaled ev) = Some l \<and> order_count l = 0))
      \<longrightarrow> effective_side b ev = SIDE_BID) \<and>
   (side ev = SIDE_BID \<and>
      (map_of (bid_levels b) (price_scaled ev) = None \<or>
       (\<exists>l. map_of (bid_levels b) (price_scaled ev) = Some l \<and> order_count l = 0))
      \<longrightarrow> effective_side b ev = SIDE_ASK) \<and>
   (\<not> (side ev = SIDE_ASK \<and>
      (map_of (ask_levels b) (price_scaled ev) = None \<or>
       (\<exists>l. map_of (ask_levels b) (price_scaled ev) = Some l \<and> order_count l = 0))) \<and>
    \<not> (side ev = SIDE_BID \<and>
      (map_of (bid_levels b) (price_scaled ev) = None \<or>
       (\<exists>l. map_of (bid_levels b) (price_scaled ev) = Some l \<and> order_count l = 0)))
      \<longrightarrow> effective_side b ev = side ev) \<and>
   (process_trade b ev \<longleftrightarrow>
      side_holds_in_top10 b (effective_side b ev) (price_scaled ev))"
proof -
  have neutral: "side ev = SIDE_NEUTRAL \<Longrightarrow>
      \<not> side_holds_in_top10 b (effective_side b ev) (price_scaled ev)"
    by (simp add: effective_side_def side_holds_in_top10_def SIDE_NEUTRAL_def SIDE_BID_def SIDE_ASK_def)
  show ?thesis
    using neutral
    by (auto simp: process_trade_def effective_side_def affects_top_levels_iff
        SIDE_BID_def SIDE_ASK_def split: option.splits)
qed

theorem trade_effective_side_witness:
  "side trade_neutral = SIDE_NEUTRAL \<and> \<not> process_trade S5_book trade_neutral \<and>
   side S5_trade = SIDE_ASK \<and> map_of (ask_levels S5_book) (price_scaled S5_trade) = None \<and>
   effective_side S5_book S5_trade = SIDE_BID \<and> process_trade S5_book S5_trade \<and>
   side trade_bid_101 = SIDE_BID \<and>
   map_of (bid_levels S5_book) (price_scaled trade_bid_101) = None \<and>
   effective_side S5_book trade_bid_101 = SIDE_ASK \<and> \<not> process_trade S5_book trade_bid_101 \<and>
   map_of (bid_levels S5_book) (price_scaled trade_bid_100) \<noteq> None \<and>
   effective_side S5_book trade_bid_100 = side trade_bid_100 \<and>
   process_trade S5_book trade_bid_100"
  using trade_effective_side[of trade_neutral S5_book]
    trade_effective_side[of S5_trade S5_book]
    trade_effective_side[of trade_bid_101 S5_book]
    trade_effective_side[of trade_bid_100 S5_book]
  by (simp add: S5_book_eval side_holds_in_top10_def top10_keys_def fixture_defs
      SIDE_BID_def SIDE_ASK_def SIDE_NEUTRAL_def)

text \<open>
  C3. For every book and every Trade event, whatever its side, price and size,
  processing the event leaves the bid map, the ask map and the order-id index as they
  were, in \<^const>\<open>process_order\<close> and in the loop body around it.
\<close>

theorem trade_no_mutation:
  "action ev = ACTION_TRADE \<Longrightarrow>
   fst (process_order b ev) = b \<and> order_book (fst (engine_step e ev)) = order_book e"
  by (simp add: process_order_def engine_step_def ACTION_TRADE_def ACTION_CLEAR_def
      ACTION_ADD_def ACTION_CANCEL_def split: prod.splits)

theorem trade_no_mutation_witness:
  "action S5_trade = ACTION_TRADE \<and> fst (process_order S5_book S5_trade) = S5_book \<and>
   snd (process_order S5_book S5_trade) \<noteq> None \<and>
   order_book (fst (engine_step \<lparr>first_clear_ignored = False, order_book = S5_book\<rparr> S5_trade))
     = S5_book"
proof -
  have act: "action S5_trade = ACTION_TRADE"
    by (simp add: fixture_defs ACTION_TRADE_def)
  have emitted: "snd (process_order S5_book S5_trade) \<noteq> None"
    by (simp add: S5_book_eval model_defs S5_trade_def event_def Order_new_def)
  show ?thesis
    using act emitted
      trade_no_mutation[OF act, of S5_book "\<lparr>first_clear_ignored = False, order_book = S5_book\<rparr>"]
    by simp
qed




text \<open>
  C5, as the code has it. For every book whose maps are ordered, whose levels have
  consistent counts and whose resident ids are all indexed (P3, I2, I1), and every Add
  event whose id is not live: the Add followed by a Cancel of the same id leaves the bid
  map, the ask map and the order-id index equal to what they were before the Add.
\<close>

theorem add_then_cancel_restores:
  assumes ord: "keys_ordered b" and cnt: "book_counted b" and conv: "level_to_index b"
    and fresh: "active_orders b (order_id a) = None" and same: "order_id c = order_id a"
  shows "snd (cancel_order (snd (add_order b a)) c) = b"
proof (cases "add_accepted a")
  case False
  with fresh same show ?thesis by (simp add: add_order_rejected cancel_order_unknown)
next
  case True
  from ord have sb: "levels_sorted bid_comp (bid_levels b)"
    and sa: "levels_sorted ask_comp (ask_levels b)"
    by (simp_all add: keys_ordered_def)
  from cnt have cb: "levels_counted (bid_levels b)" and ca: "levels_counted (ask_levels b)"
    by (simp_all add: book_counted_def)
  from conv have rb: "residents_indexed (active_orders b) SIDE_BID (bid_levels b)"
    and ra: "residents_indexed (active_orders b) SIDE_ASK (ask_levels b)"
    by (simp_all add: level_to_index_def)
  have restore: "(active_orders b)(order_id a := None) = active_orders b"
    using fresh by (simp add: fun_eq_iff)
  from add_accepted_side[OF True] show ?thesis
  proof
    assume sd: "side a = SIDE_BID"
    let ?info = "\<lparr>info_side = SIDE_BID, info_price_scaled = price_scaled a,
           info_size = ucast (order_size a)\<rparr>"
    have absent: "order_id a \<notin> set (order_ids l)"
      if "map_of (bid_levels b) (price_scaled a) = Some l" for l
      using rb that fresh residents_indexed_iff[OF bid_comp_order sb] by fastforce
    have rt: "remove_from_levels (order_id a) ?info (add_to_levels bid_comp a (bid_levels b))
        = bid_levels b"
      by (rule remove_after_add[OF bid_comp_order sb cb absent]) simp_all
    have live: "active_orders (snd (add_order b a)) (order_id c) = Some ?info"
      by (simp add: add_order_bid[OF True sd] same)
    have "snd (cancel_order (snd (add_order b a)) c) =
        (snd (add_order b a))\<lparr>bid_levels :=
            remove_from_levels (order_id c) ?info (bid_levels (snd (add_order b a))),
          active_orders := (active_orders (snd (add_order b a)))(order_id c := None)\<rparr>"
      by (rule cancel_order_bid[OF live]) simp
    then show ?thesis
      using rt restore by (simp add: same add_order_bid[OF True sd])
  next
    assume sd: "side a = SIDE_ASK"
    let ?info = "\<lparr>info_side = SIDE_ASK, info_price_scaled = price_scaled a,
           info_size = ucast (order_size a)\<rparr>"
    have absent: "order_id a \<notin> set (order_ids l)"
      if "map_of (ask_levels b) (price_scaled a) = Some l" for l
      using ra that fresh residents_indexed_iff[OF ask_comp_order sa] by fastforce
    have rt: "remove_from_levels (order_id a) ?info (add_to_levels ask_comp a (ask_levels b))
        = ask_levels b"
      by (rule remove_after_add[OF ask_comp_order sa ca absent]) simp_all
    have live: "active_orders (snd (add_order b a)) (order_id c) = Some ?info"
      by (simp add: add_order_ask[OF True sd] same)
    have "snd (cancel_order (snd (add_order b a)) c) =
        (snd (add_order b a))\<lparr>ask_levels :=
            remove_from_levels (order_id c) ?info (ask_levels (snd (add_order b a))),
          active_orders := (active_orders (snd (add_order b a)))(order_id c := None)\<rparr>"
      by (rule cancel_order_ask[OF live]) simp
    then show ?thesis
      using rt restore by (simp add: same add_order_ask[OF True sd])
  qed
qed

theorem add_then_cancel_restores_witness:
  "active_orders S5_book (order_id add_8) = None \<and> add_accepted add_8 \<and>
   snd (add_order S5_book add_8) \<noteq> S5_book \<and>
   snd (cancel_order (snd (add_order S5_book add_8)) cancel_8) = S5_book"
proof -
  have ord: "keys_ordered S5_book" and cnt: "book_counted S5_book"
    using S5_book_wf by (simp_all add: book_wf_def)
  have conv: "level_to_index S5_book" using S5_book_exact by (simp add: book_exact_def)
  have fresh: "active_orders S5_book (order_id add_8) = None"
    by (simp add: S5_book_eval add_8_def event_def Order_new_def)
  have same: "order_id cancel_8 = order_id add_8"
    by (simp add: add_8_def cancel_8_def event_def Order_new_def)
  have acc: "add_accepted add_8"
    by (simp add: add_accepted_def is_valid_def add_8_def event_def Order_new_def)
  have "active_orders (snd (add_order S5_book add_8)) 8 \<noteq> active_orders S5_book 8"
    by (simp add: S5_book_eval model_defs add_8_def event_def Order_new_def)
  then have changed: "snd (add_order S5_book add_8) \<noteq> S5_book" by auto
  show ?thesis
    using add_then_cancel_restores[OF ord cnt conv fresh same] fresh acc changed by simp
qed

text \<open>
  When the id is already live, the Add overwrites the index entry and the Cancel erases
  it: the order added first stays in its level with no index entry.
\<close>

theorem readd_then_cancel_counterexample:
  "snd (cancel_order (snd (add_order S5_book readd_7)) cancel_7_99) \<noteq> S5_book"
proof -
  have "active_orders (snd (cancel_order (snd (add_order S5_book readd_7)) cancel_7_99)) 7 = None"
    by (simp add: S5_book_eval model_defs readd_7_def cancel_7_99_def event_def Order_new_def)
  moreover have "active_orders S5_book 7 \<noteq> None" by (simp add: S5_book_eval)
  ultimately show ?thesis by auto
qed




text \<open>
  C7. For every event sequence applied to a fresh engine, the first event whose action
  is Clear yields no snapshot and leaves the book (and the writer) as they were. For the
  sequence Clear, Add(id=1, Bid, 100.000000000, 10), with non-empty timestamps and symbol
  on the Add, exactly one snapshot is written, for the Add, with row index 0, first bid
  level (100, 10, 1), every other bid level and all ask levels zero, and depth 0.
\<close>

theorem first_clear_suppressed:
  assumes "list_all (\<lambda>x. action x \<noteq> ACTION_CLEAR) pre" and "action c = ACTION_CLEAR"
  shows "engine_step (engine_run new_engine pre) c =
           ((engine_run new_engine pre)\<lparr>first_clear_ignored := True\<rparr>, None) \<and>
         (\<forall>e w. process_orders new_engine new_writer pre = Inr (e, w) \<longrightarrow>
            process_orders new_engine new_writer (pre @ [c]) =
              Inr (e\<lparr>first_clear_ignored := True\<rparr>, w)) \<and>
         (action a = ACTION_ADD \<and> order_id a = 1 \<and> side a = SIDE_BID \<and>
          price_scaled a = 100000000000 \<and> order_size a = 10 \<and>
          ts_recv a \<noteq> [] \<and> ts_event a \<noteq> [] \<and> symbol a \<noteq> [] \<longrightarrow>
          (\<exists>e w r. process_orders new_engine new_writer [c, a] = Inr (e, w) \<and>
             rows_out w = [(0, r)] \<and> row_action r = ACTION_ADD \<and>
             row_bid_levels r =
               \<lparr>lv_price = 100, lv_size = 10, lv_count = 1\<rparr> # replicate 9 Level_default \<and>
             row_ask_levels r = replicate 10 Level_default \<and> depth r = 0))"
proof (intro conjI allI impI)
  have flag: "\<not> first_clear_ignored (engine_run new_engine pre)"
    using engine_run_flag_no_clear[OF assms(1), of new_engine] by (simp add: new_engine_def)
  show step: "engine_step (engine_run new_engine pre) c =
           ((engine_run new_engine pre)\<lparr>first_clear_ignored := True\<rparr>, None)"
    using first_clear_step[OF flag assms(2)] .
  show "process_orders new_engine new_writer (pre @ [c]) = Inr (e\<lparr>first_clear_ignored := True\<rparr>, w)"
    if run: "process_orders new_engine new_writer pre = Inr (e, w)" for e w
  proof -
    have "e = engine_run new_engine pre" using process_orders_engine[OF run] .
    with step run show ?thesis by (simp add: process_orders_append)
  qed
  show "\<exists>e w r. process_orders new_engine new_writer [c, a] = Inr (e, w) \<and>
             rows_out w = [(0, r)] \<and> row_action r = ACTION_ADD \<and>
             row_bid_levels r =
               \<lparr>lv_price = 100, lv_size = 10, lv_count = 1\<rparr> # replicate 9 Level_default \<and>
             row_ask_levels r = replicate 10 Level_default \<and> depth r = 0"
    if "action a = ACTION_ADD \<and> order_id a = 1 \<and> side a = SIDE_BID \<and>
          price_scaled a = 100000000000 \<and> order_size a = 10 \<and>
          ts_recv a \<noteq> [] \<and> ts_event a \<noteq> [] \<and> symbol a \<noteq> []"
    using that assms(2) by (simp add: model_defs upt_rec replicate_10 replicate_9)
qed

theorem first_clear_suppressed_witness:
  "engine_step (engine_run new_engine [S5_add]) S1_clear =
     ((engine_run new_engine [S5_add])\<lparr>first_clear_ignored := True\<rparr>, None) \<and>
   order_book (engine_run new_engine [S5_add, S1_clear]) = S5_book \<and>
   (\<exists>e w r. process_orders new_engine new_writer [S1_clear, S1_add] = Inr (e, w) \<and>
      rows_out w = [(0, r)] \<and> row_action r = ACTION_ADD \<and>
      row_bid_levels r =
        \<lparr>lv_price = 100, lv_size = 10, lv_count = 1\<rparr> # replicate 9 Level_default \<and>
      row_ask_levels r = replicate 10 Level_default \<and> depth r = 0)"
proof -
  have pre: "list_all (\<lambda>x. action x \<noteq> ACTION_CLEAR) [S5_add]"
    by (simp add: fixture_defs ACTION_CLEAR_def)
  have c: "action S1_clear = ACTION_CLEAR"
    by (simp add: fixture_defs ACTION_CLEAR_def)
  have a: "action S1_add = ACTION_ADD \<and> order_id S1_add = 1 \<and> side S1_add = SIDE_BID \<and>
          price_scaled S1_add = 100000000000 \<and> order_size S1_add = 10 \<and>
          ts_recv S1_add \<noteq> [] \<and> ts_event S1_add \<noteq> [] \<and> symbol S1_add \<noteq> []"
    by (simp add: fixture_defs ACTION_ADD_def SIDE_BID_def)
  have book: "order_book (engine_run new_engine [S5_add]) = S5_book"
    by (simp add: S5_book_def engine_step_def process_order_def new_engine_def
        ACTION_CLEAR_def ACTION_ADD_def fixture_defs split: prod.splits)
  show ?thesis
    using first_clear_suppressed[OF pre c, of S1_add] a book by simp
qed

text \<open>
  C8. For every book and every Add event whose side is neither Bid nor Ask, or whose
  scaled price is 0, or whose size is 0, the add returns false, no snapshot is produced,
  and the book is unchanged.
\<close>

theorem add_rejected:
  "(side ev \<noteq> SIDE_BID \<and> side ev \<noteq> SIDE_ASK) \<or> price_scaled ev = 0 \<or> order_size ev = 0 \<Longrightarrow>
   add_order b ev = (False, b) \<and>
   (action ev = ACTION_ADD \<longrightarrow> process_order b ev = (b, None))"
  by (auto simp: add_order_def is_valid_def SIDE_BID_def SIDE_ASK_def process_order_def
      ACTION_ADD_def ACTION_CLEAR_def)

theorem add_rejected_witness:
  "price_scaled add_zero_price = 0 \<and> action add_zero_price = ACTION_ADD \<and>
   add_order S5_book add_zero_price = (False, S5_book) \<and>
   process_order S5_book add_zero_price = (S5_book, None)"
proof -
  have p: "price_scaled add_zero_price = 0" and a: "action add_zero_price = ACTION_ADD"
    by (simp_all add: fixture_defs ACTION_ADD_def)
  show ?thesis
    using add_rejected[of add_zero_price S5_book] p a by simp
qed

text \<open>
  C9. For every book and every Cancel event whose id is not in the index, cancel
  returns false, no snapshot is produced and the book is unchanged. Hence of two
  identical Cancels of a live id the first erases the id and the second changes nothing;
  and a cancel preserves the invariants of the book (ordered keys, consistent counts
  and totals, I1 in both directions), after which the id is resident in no level.
\<close>

theorem cancel_unknown_noop:
  "(active_orders b (order_id ev) = None \<longrightarrow>
      cancel_order b ev = (False, b) \<and>
      (action ev = ACTION_CANCEL \<longrightarrow> process_order b ev = (b, None))) \<and>
   (active_orders b (order_id ev) \<noteq> None \<longrightarrow>
      active_orders (snd (cancel_order b ev)) (order_id ev) = None \<and>
      cancel_order (snd (cancel_order b ev)) ev = (False, snd (cancel_order b ev))) \<and>
   (book_wf b \<longrightarrow> book_wf (snd (cancel_order b ev))) \<and>
   (book_wf b \<and> book_exact b \<longrightarrow>
      book_exact (snd (cancel_order b ev)) \<and>
      list_all (\<lambda>(p, l). order_id ev \<notin> set (order_ids l))
        (bid_levels (snd (cancel_order b ev)) @ ask_levels (snd (cancel_order b ev)))) \<and>
   (book_wf b \<and> book_exact b \<and> book_totalled b \<longrightarrow>
      book_totalled (snd (cancel_order b ev)))"
proof (intro conjI impI)
  assume none: "active_orders b (order_id ev) = None"
  then show "cancel_order b ev = (False, b)" by (rule cancel_order_unknown)
  then show "process_order b ev = (b, None)" if "action ev = ACTION_CANCEL"
    using that by (simp add: process_order_def ACTION_CANCEL_def ACTION_CLEAR_def ACTION_ADD_def)
next
  have gone: "active_orders (snd (cancel_order b ev)) (order_id ev) = None"
    by (simp add: cancel_order_index)
  show "active_orders (snd (cancel_order b ev)) (order_id ev) = None" by (rule gone)
  show "cancel_order (snd (cancel_order b ev)) ev = (False, snd (cancel_order b ev))"
    using gone by (rule cancel_order_unknown)
  show "book_wf (snd (cancel_order b ev))" if "book_wf b"
    using that by (rule cancel_order_wf)
  show "book_exact (snd (cancel_order b ev))" if "book_wf b \<and> book_exact b"
    using that cancel_order_exact by blast
  show "book_totalled (snd (cancel_order b ev))"
    if "book_wf b \<and> book_exact b \<and> book_totalled b"
    using that cancel_order_totalled by blast
  show "list_all (\<lambda>(p, l). order_id ev \<notin> set (order_ids l))
        (bid_levels (snd (cancel_order b ev)) @ ask_levels (snd (cancel_order b ev)))"
    if "book_wf b \<and> book_exact b"
  proof -
    from that have "book_exact (snd (cancel_order b ev))" using cancel_order_exact by blast
    then show ?thesis
      using not_resident[of "active_orders (snd (cancel_order b ev))" _ _ "order_id ev"] gone
      by (auto simp: book_exact_def level_to_index_def)
  qed
qed

theorem cancel_unknown_noop_witness:
  "active_orders S5_book (order_id cancel_8) = None \<and>
   cancel_order S5_book cancel_8 = (False, S5_book) \<and>
   active_orders S5_book (order_id cancel_7_bid) \<noteq> None \<and>
   fst (cancel_order S5_book cancel_7_bid) \<and>
   active_orders (snd (cancel_order S5_book cancel_7_bid)) (order_id cancel_7_bid) = None \<and>
   cancel_order (snd (cancel_order S5_book cancel_7_bid)) cancel_7_bid =
     (False, snd (cancel_order S5_book cancel_7_bid)) \<and>
   book_wf (snd (cancel_order S5_book cancel_7_bid)) \<and>
   book_exact (snd (cancel_order S5_book cancel_7_bid)) \<and>
   book_totalled (snd (cancel_order S5_book cancel_7_bid))"
proof -
  have tot: "book_totalled S5_book"
    by (simp add: S5_book_eval book_totalled_def levels_totalled_def stored_size_def)
  have unknown: "active_orders S5_book (order_id cancel_8) = None"
    by (simp add: S5_book_eval cancel_8_def event_def Order_new_def)
  have live: "active_orders S5_book (order_id cancel_7_bid) \<noteq> None"
    by (simp add: S5_book_eval cancel_7_bid_def event_def Order_new_def)
  have first: "fst (cancel_order S5_book cancel_7_bid)"
    by (simp add: S5_book_eval model_defs cancel_7_bid_def event_def Order_new_def)
  show ?thesis
    using cancel_unknown_noop[of S5_book cancel_8] cancel_unknown_noop[of S5_book cancel_7_bid]
      unknown live first S5_book_wf S5_book_exact tot
    by simp
qed

text \<open>
  C10. For every book and any two Cancel events with the same order id, whatever their
  own side, price and size fields, cancel returns the same value and the same book: the
  outcome depends on the id and on what the order-id index stores for it only.
\<close>

theorem cancel_ignores_event_fields:
  "order_id ev1 = order_id ev2 \<Longrightarrow> cancel_order b ev1 = cancel_order b ev2"
  by (simp add: cancel_order_def Let_def split: option.splits)

theorem cancel_ignores_event_fields_witness:
  "order_id cancel_7_bid = order_id cancel_7_ask \<and> side cancel_7_bid \<noteq> side cancel_7_ask \<and>
   price_scaled cancel_7_bid \<noteq> price_scaled cancel_7_ask \<and>
   cancel_order S5_book cancel_7_bid = cancel_order S5_book cancel_7_ask \<and>
   active_orders (snd (cancel_order S5_book cancel_7_ask)) 7 = None \<and>
   active_orders S5_book 7 \<noteq> None"
proof -
  have ids: "order_id cancel_7_bid = order_id cancel_7_ask"
    by (simp add: fixture_defs)
  have rest: "side cancel_7_bid \<noteq> side cancel_7_ask \<and>
      price_scaled cancel_7_bid \<noteq> price_scaled cancel_7_ask \<and>
      active_orders (snd (cancel_order S5_book cancel_7_ask)) 7 = None \<and>
      active_orders S5_book 7 \<noteq> None"
    by (simp add: S5_book_eval model_defs cancel_7_bid_def cancel_7_ask_def event_def Order_new_def)
  show ?thesis
    using cancel_ignores_event_fields[OF ids, of S5_book] rest ids by simp
qed

end
